theory Spec2Isabelle
  imports Complex_Main "HOL-Library.Word" "HOL-Library.Signed_Division"
begin

unbundle bit_operations_syntax

section \<open>Puzzle box maker (puzzlebox.c): maze grid and mesh stitching\<close>

text \<open>
  The development follows \<^verbatim>\<open>src/puzzlebox.c\<close>. C \<^verbatim>\<open>int\<close> values (grid
  coordinates, point indices, counters) are modelled as unbounded \<open>int\<close>: they are
  bounded by the grid size and never come near the 32-bit range. The one value
  that the program negates as it was read, \<^verbatim>\<open>mazecomplexity\<close>, is negated as a
  32-bit value. The maze array
  \<^verbatim>\<open>unsigned char maze[W][H]\<close> holds \<open>8 word\<close> values, the pseudo-random
  state \<^verbatim>\<open>unsigned int rng_state\<close> is a \<open>32 word\<close>. C division and remainder
  truncate towards zero: \<open>sdiv\<close> and \<open>smod\<close>.
\<close>

subsection \<open>Flags and biases (lines 20-31)\<close>

definition FLAGL :: "8 word" where "FLAGL = 0x01"
definition FLAGR :: "8 word" where "FLAGR = 0x02"
definition FLAGU :: "8 word" where "FLAGU = 0x04"
definition FLAGD :: "8 word" where "FLAGD = 0x08"
definition FLAGA :: "8 word" where "FLAGA = 0x0F"
definition FLAGI :: "8 word" where "FLAGI = 0x80"

definition BIASL :: int where "BIASL = 2"
definition BIASR :: int where "BIASR = 1"
definition BIASU :: int where "BIASU = 1"
definition BIASD :: int where "BIASD = 4"

lemmas flag_defs = FLAGL_def FLAGR_def FLAGU_def FLAGD_def FLAGA_def FLAGI_def
lemmas bias_defs = BIASL_def BIASR_def BIASU_def BIASD_def

subsection \<open>Errors\<close>

text \<open>
  \<^verbatim>\<open>fatal\<close> (lines 209-218) prints its message and exits: the first four errors
  are its four messages. \<open>OutOfBounds\<close> and \<open>DivideByZero\<close> stand for what C
  leaves undefined: an array access outside its bounds, a division or remainder
  by zero.
\<close>

datatype error = TooSmall | UnexpectedMazePath | WTFPoints | BadRender | OutOfBounds | DivideByZero

subsection \<open>Parameters of one maze build\<close>

text \<open>
  The variables of \<^verbatim>\<open>main\<close>, \<^verbatim>\<open>box\<close> and \<^verbatim>\<open>makemaze\<close> that the nested
  functions read. \<open>W\<close> and \<open>H\<close> are the grid sizes computed at lines 829-841 and
  \<open>MAXY\<close> the capacity computed at line 1083, all three cast from floating-point
  expressions over the physical dimensions. The height-band test of lines 890-891
  is floating-point arithmetic too; its outcome for each cell is the parameter
  \<open>band\<close> (\<open>True\<close>: too high or too low).
\<close>

record params =
  W :: int
  H :: int
  helix :: int
  nubs :: int
  flip :: bool
  inside :: bool
  noa :: bool
  parkvertical :: bool
  testmaze :: bool
  mazecomplexity :: int
  MAXY :: int
  band :: "int \<Rightarrow> int \<Rightarrow> bool"

type_synonym maze = "int \<Rightarrow> int \<Rightarrow> 8 word"

subsection \<open>The cell query \<^verbatim>\<open>test\<close> (lines 851-883)\<close>

text \<open>
  The two normalising loops of lines 853-862. They run forever when \<open>W \<le> 0\<close> and
  \<open>x\<close> is out of range, so they are partial functions: \<open>None\<close> is not returning.
\<close>

partial_function (option) wrap_neg :: "params \<Rightarrow> int \<Rightarrow> int \<Rightarrow> (int \<times> int) option" where
  "wrap_neg g x y = (if x < 0 then wrap_neg g (x + W g) (y - helix g) else Some (x, y))"

declare wrap_neg.simps [code]

partial_function (option) wrap_pos :: "params \<Rightarrow> int \<Rightarrow> int \<Rightarrow> (int \<times> int) option" where
  "wrap_pos g x y = (if x \<ge> W g then wrap_pos g (x - W g) (y + helix g) else Some (x, y))"

declare wrap_pos.simps [code]

definition wrap :: "params \<Rightarrow> int \<Rightarrow> int \<Rightarrow> (int \<times> int) option" where
  "wrap g x y = Option.bind (wrap_neg g x y) (\<lambda>(x1, y1). wrap_pos g x1 y1)"

text \<open>
  The loop \<^verbatim>\<open>while (n--)\<close> of lines 865-881: \<open>n\<close> is the counter before the
  test-and-decrement, \<open>v\<close> the flags gathered so far. A negative \<open>nubs\<close> never
  reaches 0. The read \<^verbatim>\<open>maze[x][y]\<close> happens only for \<open>0 \<le> y < H\<close>, and \<open>x\<close>
  has been normalised into \<open>[0, W)\<close>.
\<close>

partial_function (option) test_loop ::
  "params \<Rightarrow> maze \<Rightarrow> int \<Rightarrow> int \<Rightarrow> int \<Rightarrow> 8 word \<Rightarrow> 8 word option" where
  "test_loop g m n x y v =
     (if n = 0 then Some v
      else if n - 1 = 0
        then Some (if y < 0 \<or> y \<ge> H g then v OR FLAGI else v OR m x y)
        else Option.bind (wrap_pos g (x + W g sdiv nubs g) y)
          (\<lambda>xy. test_loop g m (n - 1) (fst xy)
             (if helix g = nubs g then snd xy - 1 else snd xy)
             (if y < 0 \<or> y \<ge> H g then v OR FLAGI else v OR m x y)))"

declare test_loop.simps [code]

definition test :: "params \<Rightarrow> maze \<Rightarrow> int \<Rightarrow> int \<Rightarrow> 8 word option" where
  "test g m x y =
     Option.bind (wrap g x y) (\<lambda>xy. test_loop g m (nubs g) (fst xy) (snd xy) 0)"


subsection \<open>The pseudo-random source (lines 80-102)\<close>

text \<open>
  \<^verbatim>\<open>seed_rng\<close> sets the state once from the clock, so the state after seeding is
  any 32-bit value: here it is the argument. \<^verbatim>\<open>random_int\<close> returns the drawn
  value and the new state.
\<close>

definition random_int :: "int \<Rightarrow> 32 word \<Rightarrow> int \<times> 32 word" where
  "random_int limit s =
     (if limit \<le> 0 then (0, s)
      else (uint (((s * 1103515245 + 12345) div 65536) mod 32768) smod limit,
            s * 1103515245 + 12345))"

subsection \<open>Writing the maze array\<close>

text \<open>\<^verbatim>\<open>maze[x][y] |= f\<close> on \<^verbatim>\<open>unsigned char maze[W][H]\<close>.\<close>

definition maze_or :: "params \<Rightarrow> maze \<Rightarrow> int \<Rightarrow> int \<Rightarrow> 8 word \<Rightarrow> error + maze" where
  "maze_or g m x y f =
     (if 0 \<le> x \<and> x < W g \<and> 0 \<le> y \<and> y < H g
      then Inr (m(x := (m x)(y := m x y OR f)))
      else Inl OutOfBounds)"

text \<open>A run of such writes, stopping at the first one out of bounds.\<close>

fun maze_ors :: "params \<Rightarrow> maze \<Rightarrow> (int \<times> int \<times> 8 word) list \<Rightarrow> error + maze" where
  "maze_ors g m [] = Inr m"
| "maze_ors g m ((x, y, f) # ws) =
     (case maze_or g m x y f of Inl e \<Rightarrow> Inl e | Inr m' \<Rightarrow> maze_ors g m' ws)"

text \<open>
  The cells in the order of the loops \<^verbatim>\<open>for (Y = 0; Y < H; Y++) for (X = 0; X < W; X++)\<close>.
\<close>

definition cells :: "params \<Rightarrow> (int \<times> int) list" where
  "cells g = concat (map (\<lambda>Y. map (\<lambda>X. (X, Y)) [0..W g - 1]) [0..H g - 1])"

subsection \<open>Clearing the height band and the final park point (lines 849-925)\<close>

text \<open>\<^verbatim>\<open>memset\<close> to 0, then \<open>FLAGI\<close> on the cells outside the band.\<close>

definition clear_band :: "params \<Rightarrow> maze" where
  "clear_band g =
     fold (\<lambda>(X, Y) m. if band g X Y then m(X := (m X)(Y := m X Y OR FLAGI)) else m)
       (cells g) (\<lambda>x y. 0)"

text \<open>\<^verbatim>\<open>W / nubs > k\<close>, as lines 901 and 915 evaluate it.\<close>

definition per_nub :: "params \<Rightarrow> error + int" where
  "per_nub g = (if nubs g = 0 then Inl DivideByZero else Inr (W g sdiv nubs g))"

text \<open>
  The loop of lines 896-900 for \<open>N\<close>, \<open>N + 1\<close>, ... below \<open>helix + 2\<close>; the result
  carries \<open>X\<close> and \<open>Y\<close>, which the loop assigns.
\<close>

function park_down ::
  "params \<Rightarrow> maze \<Rightarrow> int \<Rightarrow> int \<Rightarrow> int \<Rightarrow> error + maze \<times> int \<times> int" where
  "park_down g m N X Y =
     (if N < helix g + 2
      then (case maze_ors g m [(0, N, FLAGU + FLAGD), (0, N + 1, FLAGD)] of
              Inl e \<Rightarrow> Inl e
            | Inr m' \<Rightarrow> park_down g m' (N + 1) 0 (N + 1))
      else Inr (m, X, Y))"
  by pat_completeness auto
termination
  by (relation "measure (\<lambda>(g, m, N, X, Y). nat (helix g + 2 - N))") auto

text \<open>
  Lines 893-925. After the loops of lines 888-892 \<open>X = W\<close> and \<open>Y = H\<close> (the grid
  has passed the size check); these are the values \<open>park_down\<close> leaves when its loop
  does not run. The result is the maze and the cell \<open>(X, Y)\<close> the walk starts from.
\<close>

definition park :: "params \<Rightarrow> maze \<Rightarrow> error + maze \<times> int \<times> int" where
  "park g m =
     (if parkvertical g
      then (case park_down g m 0 (W g) (H g) of
              Inl e \<Rightarrow> Inl e
            | Inr (m1, X, Y) \<Rightarrow>
                if \<not> inside g \<and> \<not> noa g
                then (case per_nub g of
                        Inl e \<Rightarrow> Inl e
                      | Inr d \<Rightarrow>
                          if d > 2 \<and> H g > helix g + 4
                          then (case maze_ors g m1
                                  [(X, Y, FLAGD OR FLAGU OR FLAGR),
                                   (X, Y + 1, FLAGD OR FLAGR),
                                   (X + 1, Y, FLAGD OR FLAGU OR FLAGL),
                                   (X + 1, Y + 1, FLAGD OR FLAGL),
                                   (X + 1, Y - 1, FLAGU)] of
                                  Inl e \<Rightarrow> Inl e
                                | Inr m2 \<Rightarrow> Inr (m2, X + 1, Y - 1))
                          else Inr (m1, X, Y))
                else Inr (m1, X, Y))
      else (case maze_ors g m [(0, helix g + 1, FLAGR), (1, helix g + 1, FLAGL)] of
              Inl e \<Rightarrow> Inl e
            | Inr m1 \<Rightarrow>
                if \<not> inside g \<and> \<not> noa g
                then (case per_nub g of
                        Inl e \<Rightarrow> Inl e
                      | Inr d \<Rightarrow>
                          if d > 3 \<and> H g > helix g + 3
                          then (case maze_ors g m1
                                  [(1, helix g + 1, FLAGL OR FLAGR OR FLAGU),
                                   (2, helix g + 1, FLAGL OR FLAGU),
                                   (2, helix g + 2, FLAGL OR FLAGD),
                                   (1, helix g + 2, FLAGL OR FLAGR OR FLAGD),
                                   (0, helix g + 2, FLAGR)] of
                                  Inl e \<Rightarrow> Inl e
                                | Inr m2 \<Rightarrow> Inr (m2, 0, helix g + 2))
                          else Inr (m1, 1, helix g + 1))
                else Inr (m1, 1, helix g + 1)))"

subsection \<open>Test pattern (lines 928-946)\<close>

text \<open>
  The body of the two loops for the cells still to visit. \<^verbatim>\<open>&&\<close> evaluates the
  second query only when the first one has no \<open>FLAGI\<close>.
\<close>

fun testmaze_cells :: "params \<Rightarrow> maze \<Rightarrow> (int \<times> int) list \<Rightarrow> (error + maze) option" where
  "testmaze_cells g m [] = Some (Inr m)"
| "testmaze_cells g m ((X, Y) # cs) =
     (case test g m X Y of
        None \<Rightarrow> None
      | Some a \<Rightarrow>
          if a AND FLAGI \<noteq> 0 then testmaze_cells g m cs
          else (case test g m (X + 1) Y of
                  None \<Rightarrow> None
                | Some b \<Rightarrow>
                    if b AND FLAGI \<noteq> 0 then testmaze_cells g m cs
                    else (case maze_ors g m
                            [(X, Y, FLAGR),
                             (if X + 1 \<ge> W g then X + 1 - W g else X + 1,
                              if X + 1 \<ge> W g then Y + helix g else Y, FLAGL)] of
                            Inl e \<Rightarrow> Some (Inl e)
                          | Inr m' \<Rightarrow> testmaze_cells g m' cs)))"

text \<open>The loop of lines 945-946.\<close>

function testmaze_maxx :: "params \<Rightarrow> maze \<Rightarrow> int \<Rightarrow> int option" where
  "testmaze_maxx g m mx =
     (if mx + 1 < W g
      then (case test g m (mx + 1) (H g - 2) of
              None \<Rightarrow> None
            | Some a \<Rightarrow> if a AND FLAGI = 0 then testmaze_maxx g m (mx + 1) else Some mx)
      else Some mx)"
  by pat_completeness auto
termination
  by (relation "measure (\<lambda>(g, m, mx). nat (W g - mx))") auto

text \<open>The whole branch: the maze and \<open>maxx\<close>.\<close>

definition testmaze_mode :: "params \<Rightarrow> maze \<Rightarrow> (error + maze \<times> int) option" where
  "testmaze_mode g m =
     (case testmaze_cells g m (cells g) of
        None \<Rightarrow> None
      | Some (Inl e) \<Rightarrow> Some (Inl e)
      | Some (Inr m') \<Rightarrow>
          if \<not> flip g \<or> inside g
          then (case testmaze_maxx g m' 0 of None \<Rightarrow> None | Some mx \<Rightarrow> Some (Inr (m', mx)))
          else Some (Inr (m', 0)))"

subsection \<open>The frontier walk (lines 948-1072)\<close>

text \<open>
  A queue node \<^verbatim>\<open>pos_t\<close> is its cell and its depth \<open>n\<close>. The singly linked list
  from \<^verbatim>\<open>pos\<close> with its tail pointer \<^verbatim>\<open>last\<close> is the list of its nodes: taking
  the head is lines 967-971, \<open>a # q\<close> is the insertion at the start, \<open>q @ [a]\<close> the
  insertion at the end.
\<close>

datatype pos = Pos (pos_x: int) (pos_y: int) (pos_n: int)

record fstate =
  maze_of :: maze
  queue :: "pos list"
  maxn :: int
  maxx :: int
  rng_state :: "32 word"

datatype direction = Right | Left | Down | Up

text \<open>Lines 977-986: the sum \<open>n\<close> of the biases of the directions whose query is 0.\<close>

definition weight :: "8 word \<Rightarrow> 8 word \<Rightarrow> 8 word \<Rightarrow> 8 word \<Rightarrow> int" where
  "weight r l d u =
     (if r = 0 then BIASR else 0) + (if l = 0 then BIASL else 0) +
     (if d = 0 then BIASD else 0) + (if u = 0 then BIASU else 0)"

text \<open>
  Lines 995-1026: which branch of the chain is taken for the drawn \<open>v\<close>. The four
  queries are those of lines 979-986 (the maze has not changed in between);
  \<^verbatim>\<open>v -= BIAS\<close> happens only where the query before \<^verbatim>\<open>&&\<close> is 0. \<open>None\<close> is the
  final \<^verbatim>\<open>else\<close>.
\<close>

definition choose_dir :: "int \<Rightarrow> 8 word \<Rightarrow> 8 word \<Rightarrow> 8 word \<Rightarrow> 8 word \<Rightarrow> direction option" where
  "choose_dir v r l d u =
     (let v1 = (if r = 0 then v - BIASR else v) in
      if r = 0 \<and> v1 < 0 then Some Right
      else let v2 = (if l = 0 then v1 - BIASL else v1) in
        if l = 0 \<and> v2 < 0 then Some Left
        else let v3 = (if d = 0 then v2 - BIASD else v2) in
          if d = 0 \<and> v3 < 0 then Some Down
          else let v4 = (if u = 0 then v3 - BIASU else v3) in
            if u = 0 \<and> v4 < 0 then Some Up else None)"

text \<open>The bodies of the four branches: the two writes and the new \<open>(X, Y)\<close>.\<close>

definition move :: "params \<Rightarrow> maze \<Rightarrow> int \<Rightarrow> int \<Rightarrow> direction \<Rightarrow> error + maze \<times> int \<times> int" where
  "move g m X Y dir =
     (case dir of
        Right \<Rightarrow>
          (let X1 = (if X + 1 \<ge> W g then X + 1 - W g else X + 1);
               Y1 = (if X + 1 \<ge> W g then Y + helix g else Y)
           in case maze_ors g m [(X, Y, FLAGR), (X1, Y1, FLAGL)] of
                Inl e \<Rightarrow> Inl e | Inr m' \<Rightarrow> Inr (m', X1, Y1))
      | Left \<Rightarrow>
          (let X1 = (if X - 1 < 0 then X - 1 + W g else X - 1);
               Y1 = (if X - 1 < 0 then Y - helix g else Y)
           in case maze_ors g m [(X, Y, FLAGL), (X1, Y1, FLAGR)] of
                Inl e \<Rightarrow> Inl e | Inr m' \<Rightarrow> Inr (m', X1, Y1))
      | Down \<Rightarrow>
          (case maze_ors g m [(X, Y, FLAGD), (X, Y - 1, FLAGU)] of
             Inl e \<Rightarrow> Inl e | Inr m' \<Rightarrow> Inr (m', X, Y - 1))
      | Up \<Rightarrow>
          (case maze_ors g m [(X, Y, FLAGU), (X, Y + 1, FLAGD)] of
             Inl e \<Rightarrow> Inl e | Inr m' \<Rightarrow> Inr (m', X, Y + 1)))"

text \<open>Line 1029: \<^verbatim>\<open>!flip || inside || !(X % (W / nubs))\<close>.\<close>

definition entry_column :: "params \<Rightarrow> int \<Rightarrow> error + bool" where
  "entry_column g X =
     (if \<not> flip g \<or> inside g then Inr True
      else if nubs g = 0 \<or> W g sdiv nubs g = 0 then Inl DivideByZero
      else Inr (X smod (W g sdiv nubs g) = 0))"

text \<open>
  Lines 1028-1033 for the node depth \<open>pn\<close> (\<^verbatim>\<open>p->n\<close>) and the cell \<open>(X, Y)\<close> just
  moved to: the new \<open>max\<close> and \<open>maxx\<close>.
\<close>

definition track_entry ::
  "params \<Rightarrow> maze \<Rightarrow> int \<Rightarrow> int \<Rightarrow> int \<Rightarrow> int \<Rightarrow> int \<Rightarrow> (error + int \<times> int) option" where
  "track_entry g m pn X Y mx mxx =
     (if pn > mx
      then (case test g m X (Y + 1) of
              None \<Rightarrow> None
            | Some t \<Rightarrow>
                if t AND FLAGI \<noteq> 0
                then (case entry_column g X of
                        Inl e \<Rightarrow> Some (Inl e)
                      | Inr ok \<Rightarrow> Some (Inr (if ok then (pn, X) else (mx, mxx))))
                else Some (Inr (mx, mxx)))
      else Some (Inr (mx, mxx)))"

text \<open>
  \<^verbatim>\<open>-mazecomplexity\<close> on the C \<^verbatim>\<open>int\<close> that \<^verbatim>\<open>parse_int\<close> stores unchecked: the
  negation of the 32-bit two's complement value, which leaves the least value
  \<open>- 2147483648\<close> as it is (C leaves that one case undefined; this is what
  the machine instruction gives).
\<close>

definition neg32 :: "int \<Rightarrow> int" where
  "neg32 c = sint (- (word_of_int c :: 32 word))"

text \<open>
  Lines 1040-1069 for the drawn \<open>v\<close> and \<open>c\<close> = \<^verbatim>\<open>mazecomplexity\<close>: the queue
  \<open>q\<close> after the new node \<open>nx\<close> and the current node \<open>p\<close> have been put back.
\<close>

definition requeue :: "int \<Rightarrow> int \<Rightarrow> pos \<Rightarrow> pos \<Rightarrow> pos list \<Rightarrow> pos list" where
  "requeue c v nx p q =
     (let q1 = (if v < (if c < 0 then neg32 c else c) then nx # q else q @ [nx])
      in if c \<le> 0 \<and> v < neg32 c then p # q1 else q1 @ [p])"

text \<open>
  Lines 972-1026 for the node \<open>p\<close> taken from the queue, on the maze \<open>m\<close> and
  the random state \<open>s\<close>: \<open>None\<close> inside when there is no way forward; otherwise
  the maze after the move, the cell \<open>(X, Y)\<close> moved to and the random state after
  the draw of the direction.
\<close>

definition explore ::
  "params \<Rightarrow> maze \<Rightarrow> pos \<Rightarrow> 32 word \<Rightarrow> (error + (maze \<times> int \<times> int \<times> 32 word) option) option" where
  "explore g m p s =
     (case test g m (pos_x p + 1) (pos_y p) of None \<Rightarrow> None | Some r \<Rightarrow>
      case test g m (pos_x p - 1) (pos_y p) of None \<Rightarrow> None | Some l \<Rightarrow>
      case test g m (pos_x p) (pos_y p - 1) of None \<Rightarrow> None | Some d \<Rightarrow>
      case test g m (pos_x p) (pos_y p + 1) of None \<Rightarrow> None | Some u \<Rightarrow>
        if weight r l d u = 0 then Some (Inr None)
        else
          (case choose_dir (fst (random_int (weight r l d u) s)) r l d u of
             None \<Rightarrow> Some (Inl UnexpectedMazePath)
           | Some dir \<Rightarrow>
               (case move g m (pos_x p) (pos_y p) dir of
                  Inl e \<Rightarrow> Some (Inl e)
                | Inr (m', X, Y) \<Rightarrow>
                    Some (Inr (Some (m', X, Y, snd (random_int (weight r l d u) s)))))))"

text \<open>
  One turn of the loop \<^verbatim>\<open>while (pos)\<close> for the head \<open>p\<close> and the rest \<open>ps\<close> of
  the queue: the node is dropped when there is no way forward; otherwise the
  entry is tracked (lines 1027-1033) and both nodes are put back (lines
  1034-1069).
\<close>

definition expand :: "params \<Rightarrow> fstate \<Rightarrow> pos \<Rightarrow> pos list \<Rightarrow> (error + fstate) option" where
  "expand g st p ps =
     (case explore g (maze_of st) p (rng_state st) of
        None \<Rightarrow> None
      | Some (Inl e) \<Rightarrow> Some (Inl e)
      | Some (Inr None) \<Rightarrow> Some (Inr (st\<lparr>queue := ps\<rparr>))
      | Some (Inr (Some (m', X, Y, s1))) \<Rightarrow>
          (case track_entry g m' (pos_n p) X Y (maxn st) (maxx st) of
             None \<Rightarrow> None
           | Some (Inl e) \<Rightarrow> Some (Inl e)
           | Some (Inr (mx, mxx)) \<Rightarrow>
               Some (Inr
                 \<lparr>maze_of = m',
                  queue = requeue (mazecomplexity g) (fst (random_int 10 s1))
                            (Pos X Y (pos_n p + 1)) p ps,
                  maxn = mx, maxx = mxx,
                  rng_state = snd (random_int 10 s1)\<rparr>)))"

text \<open>The loop: \<open>None\<close> when it does not end.\<close>

partial_function (option) frontier :: "params \<Rightarrow> fstate \<Rightarrow> (error + fstate) option" where
  "frontier g st =
     (case queue st of
        [] \<Rightarrow> Some (Inr st)
      | p # ps \<Rightarrow>
          Option.bind (expand g st p ps)
            (\<lambda>res. case res of Inl e \<Rightarrow> Some (Inl e) | Inr st' \<Rightarrow> frontier g st'))"

declare frontier.simps [code]

text \<open>Lines 949-1072 from the start cell \<open>(X, Y)\<close>: the maze and \<open>maxx\<close>.\<close>

definition maze_mode ::
  "params \<Rightarrow> maze \<Rightarrow> int \<Rightarrow> int \<Rightarrow> 32 word \<Rightarrow> (error + fstate) option" where
  "maze_mode g m X Y s =
     frontier g \<lparr>maze_of = m, queue = [Pos X Y 0], maxn = 0, maxx = 0, rng_state = s\<rparr>"

subsection \<open>The entry channel (lines 1073-1081)\<close>

text \<open>
  The loop \<^verbatim>\<open>while (Y && (maze[X][Y] & FLAGI))\<close> of one column and the
  \<^verbatim>\<open>maze[X][Y] += FLAGU\<close> after it (an addition on \<^verbatim>\<open>unsigned char\<close>).
\<close>

function carve_column :: "params \<Rightarrow> maze \<Rightarrow> int \<Rightarrow> int \<Rightarrow> error + maze" where
  "carve_column g m X Y =
     (if \<not> (0 \<le> X \<and> X < W g \<and> 0 \<le> Y \<and> Y < H g) then Inl OutOfBounds
      else if Y \<noteq> 0 \<and> m X Y AND FLAGI \<noteq> 0
        then carve_column g (m(X := (m X)(Y := m X Y OR (FLAGU + FLAGD)))) X (Y - 1)
        else Inr (m(X := (m X)(Y := m X Y + FLAGU))))"
  by pat_completeness auto
termination
  by (relation "measure (\<lambda>(g, m, X, Y). nat Y)") auto

text \<open>The loop over the columns, \<open>d\<close> being \<^verbatim>\<open>W / nubs\<close>.\<close>

partial_function (option) carve_columns ::
  "params \<Rightarrow> int \<Rightarrow> maze \<Rightarrow> int \<Rightarrow> (error + maze) option" where
  "carve_columns g d m X =
     (if X < W g
      then (case carve_column g m X (H g - 1) of
              Inl e \<Rightarrow> Some (Inl e)
            | Inr m' \<Rightarrow> carve_columns g d m' (X + d))
      else Some (Inr m))"

declare carve_columns.simps [code]

definition carve_entry :: "params \<Rightarrow> maze \<Rightarrow> int \<Rightarrow> (error + maze) option" where
  "carve_entry g m mxx =
     (if nubs g = 0 \<or> W g sdiv nubs g = 0 then Some (Inl DivideByZero)
      else carve_columns g (W g sdiv nubs g) m (mxx smod (W g sdiv nubs g)))"

text \<open>
  Line 1073: \<^verbatim>\<open>entrya = (double) 360 * maxx / W\<close>. The value is a \<^verbatim>\<open>double\<close>,
  on which no arithmetic is modelled: \<open>Turn k n\<close> names the \<^verbatim>\<open>double\<close> that
  the machine computes as \<^verbatim>\<open>(double) 360 * k / n\<close>, the angle of \<open>k\<close> steps out of
  \<open>n\<close> round the circle, in degrees.
\<close>

datatype angle = Turn int int

subsection \<open>Points of the polyhedron (lines 1083-1186)\<close>

text \<open>
  What the program prints, as far as the mesh goes: a comment line, a point (with
  its number; the coordinates are floating point and left out), and the pieces of
  the faces: \<^verbatim>\<open>[\<close>, a point number, \<^verbatim>\<open>],\<close>. The fixed OpenSCAD text around
  them is left out.
\<close>

datatype emit = Comment | Point int | FOpen | FNum int | FClose

text \<open>
  A slice \<^verbatim>\<open>s[S]\<close>: the last points \<open>l\<close> and \<open>r\<close> and the points \<open>p[0..n-1]\<close> added
  so far (\<open>n\<close> is the length of the list). The precalculated \<open>x[3]\<close>, \<open>y[3]\<close> are
  floating point and only feed the coordinates.
\<close>

record slice_t =
  sl :: int
  sr :: int
  sp :: "int list"

record mesh =
  slices :: "int \<Rightarrow> slice_t"
  next_point :: int
  pstart :: "int \<Rightarrow> int \<Rightarrow> int"
  out :: "emit list"

text \<open>
  A failure in the mesh part carries what had been printed before it.
  \<^verbatim>\<open>addpoint\<close> (\<open>sg = 1\<close>) and \<^verbatim>\<open>addpointr\<close> (\<open>sg = - 1\<close>), lines 1131-1144: the
  point is printed before the capacity check.
\<close>

definition addpoint :: "params \<Rightarrow> int \<Rightarrow> int \<Rightarrow> mesh \<Rightarrow> error \<times> emit list + mesh" where
  "addpoint g sg S ms =
     (if int (length (sp (slices ms S))) \<ge> MAXY g
      then Inl (WTFPoints, out ms @ [Point (next_point ms)])
      else Inr (ms\<lparr>slices := (slices ms)
                     (S := (slices ms S)\<lparr>sp := sp (slices ms S) @ [sg * next_point ms]\<rparr>),
                   next_point := next_point ms + 1,
                   out := out ms @ [Point (next_point ms)]\<rparr>))"

fun addpoints :: "params \<Rightarrow> (int \<times> int) list \<Rightarrow> mesh \<Rightarrow> error \<times> emit list + mesh" where
  "addpoints g [] ms = Inr ms"
| "addpoints g ((sg, S) # rest) ms =
     (case addpoint g sg S ms of Inl e \<Rightarrow> Inl e | Inr ms' \<Rightarrow> addpoints g rest ms')"

text \<open>One loop \<^verbatim>\<open>for (S = a; S < b; S++)\<close> of additions with the same sign.\<close>

definition ring :: "int \<Rightarrow> int \<Rightarrow> int \<Rightarrow> (int \<times> int) list" where
  "ring sg a b = map (\<lambda>S. (sg, S)) [a..b - 1]"

text \<open>Lines 1157-1172: the 16 points of each usable cell.\<close>

fun cell_points ::
  "params \<Rightarrow> maze \<Rightarrow> (int \<times> int) list \<Rightarrow> mesh \<Rightarrow> (error \<times> emit list + mesh) option" where
  "cell_points g m [] ms = Some (Inr ms)"
| "cell_points g m ((X, Y) # cs) ms =
     (case test g m X Y of
        None \<Rightarrow> None
      | Some v \<Rightarrow>
          if v AND FLAGA = 0 \<or> v AND FLAGI \<noteq> 0 then cell_points g m cs ms
          else (case addpoints g
                       (ring 1 (X * 4) (X * 4 + 4) @ ring (- 1) (X * 4) (X * 4 + 4) @
                        ring (- 1) (X * 4) (X * 4 + 4) @ ring 1 (X * 4) (X * 4 + 4))
                       (ms\<lparr>pstart := (pstart ms)(X := (pstart ms X)(Y := next_point ms))\<rparr>) of
                  Inl e \<Rightarrow> Some (Inl e)
                | Inr ms' \<Rightarrow> cell_points g m cs ms'))"

text \<open>Lines 1181-1186: each slice ends with its own base point.\<close>

fun wrap_back :: "params \<Rightarrow> int list \<Rightarrow> mesh \<Rightarrow> error \<times> emit list + mesh" where
  "wrap_back g [] ms = Inr ms"
| "wrap_back g (S # rest) ms =
     (if int (length (sp (slices ms S))) \<ge> MAXY g then Inl (WTFPoints, out ms)
      else wrap_back g rest
             (ms\<lparr>slices := (slices ms)(S := (slices ms S)\<lparr>sp := sp (slices ms S) @ [S]\<rparr>)\<rparr>))"

text \<open>
  Lines 1096-1186 on the output \<open>prt\<close> printed so far: the mesh state and the values
  of \<^verbatim>\<open>bottom\<close> and \<^verbatim>\<open>top\<close>.
\<close>

definition make_points ::
  "params \<Rightarrow> maze \<Rightarrow> emit list \<Rightarrow> (error \<times> emit list + mesh \<times> int \<times> int) option" where
  "make_points g m prt =
     (case addpoints g
             (ring 1 0 (W g * 4) @ ring (- 1) 0 (W g * 4) @ ring 1 0 (W g * 4))
             \<lparr>slices = (\<lambda>S. \<lparr>sl = 0, sr = 0, sp = []\<rparr>), next_point = 0,
              pstart = (\<lambda>X Y. 0), out = prt\<rparr> of
        Inl e \<Rightarrow> Some (Inl e)
      | Inr ms1 \<Rightarrow>
          (case cell_points g m (cells g) ms1 of
             None \<Rightarrow> None
           | Some (Inl e) \<Rightarrow> Some (Inl e)
           | Some (Inr ms2) \<Rightarrow>
               (case addpoints g
                       (ring 1 0 (W g * 4) @ ring 1 0 (W g * 4) @ ring 1 0 (W g * 4)) ms2 of
                  Inl e \<Rightarrow> Some (Inl e)
                | Inr ms3 \<Rightarrow>
                    (case wrap_back g [0..W g * 4 - 1] ms3 of
                       Inl e \<Rightarrow> Some (Inl e)
                     | Inr ms4 \<Rightarrow> Some (Inr (ms4, 0, next_point ms2))))))"

subsection \<open>Advancing a slice (lines 1189-1259)\<close>

text \<open>
  The searching loops \<^verbatim>\<open>for (n = ..; n < s[S].n && abs (s[S].p[n]) != abs (t); n++)\<close>:
  the number of entries passed over before the first one equal to \<open>t\<close> up to
  sign, the length of the list when there is none.
\<close>

fun scan :: "int \<Rightarrow> int list \<Rightarrow> nat" where
  "scan t [] = 0"
| "scan t (q # qs) = (if \<bar>q\<bar> = \<bar>t\<bar> then 0 else Suc (scan t qs))"

text \<open>Lines 1207-1212: a slice whose \<open>l\<close> is still 0 is first drawn to the bottom.\<close>

definition slice_start :: "params \<Rightarrow> int \<Rightarrow> int \<Rightarrow> int \<Rightarrow> int \<Rightarrow> mesh \<Rightarrow> mesh" where
  "slice_start g bottom S l r ms =
     (let l0 = (if l < 0 then - 1 else 1) *
                 (bottom + S + W g * 4 + (if l < 0 then 0 else W g * 4));
          r0 = (if r < 0 then - 1 else 1) *
                 (bottom + (S + 1) smod (W g * 4) + W g * 4 + (if r < 0 then 0 else W g * 4))
      in ms\<lparr>slices := (slices ms)(S := (slices ms S)\<lparr>sl := l0, sr := r0\<rparr>),
            out := out ms @
              [FOpen, FNum \<bar>l0\<bar>, FNum \<bar>r0\<bar>, FNum ((S + 1) smod (W g * 4)), FNum S, FClose]\<rparr>)"

text \<open>
  \<^verbatim>\<open>slice (S, l, r)\<close>. \<open>lf\<close> are the numbers printed by the loop of lines
  1225-1233 (\<open>p\<close> is their count), \<open>rt\<close> those of the loop of lines 1247-1252,
  which runs downwards.
\<close>

definition slice :: "params \<Rightarrow> int \<Rightarrow> int \<Rightarrow> int \<Rightarrow> int \<Rightarrow> mesh \<Rightarrow> error \<times> emit list + mesh" where
  "slice g bottom S l r ms =
     (if S \<ge> W g * 4 then Inl (BadRender, out ms)
      else if S < 0 then Inl (OutOfBounds, out ms)
      else
        let ms1 = (if sl (slices ms S) = 0 then slice_start g bottom S l r ms else ms);
            cur = slices ms1 S;
            nxt = slices ms1 ((S + 1) smod (W g * 4))
        in if l = sl cur \<and> r = sr cur then Inr ms1
           else
             let n1 = scan (sl cur) (sp cur);
                 n2 = n1 + scan l (drop n1 (sp cur))
             in if n1 = length (sp cur) \<or> n2 = length (sp cur)
                then Inl (BadRender, out ms1 @ [FOpen])
                else
                  let lf = map abs (filter (\<lambda>q. sgn q = sgn (sl cur))
                                      (take (n2 - n1) (drop n1 (sp cur))));
                      o1 = out ms1 @ [FOpen] @ map FNum lf @ [FNum \<bar>l\<bar>] @
                           (if lf \<noteq> [] then [FNum \<bar>r\<bar>, FClose] else []);
                      k1 = scan (sr cur) (sp nxt);
                      k2 = k1 + scan r (drop k1 (sp nxt))
                  in if k1 = length (sp nxt) \<or> k2 = length (sp nxt)
                     then Inl (BadRender, o1)
                     else
                       let rt = map abs (filter (\<lambda>q. sgn q = sgn (sr cur))
                                           (rev (take (k2 - k1) (drop k1 (sp nxt)))));
                           o2 = (if lf = [] \<or> k1 < k2
                                 then o1 @ (if lf \<noteq> [] then [FOpen] else []) @
                                      [FNum \<bar>r\<bar>] @ map FNum rt @
                                      (if lf \<noteq> [] then [FNum \<bar>sl cur\<bar>] else []) @ [FClose]
                                 else o1)
                       in Inr (ms1\<lparr>slices := (slices ms1)(S := cur\<lparr>sl := l, sr := r\<rparr>),
                                    out := o2\<rparr>))"

fun slice_all ::
  "params \<Rightarrow> int \<Rightarrow> (int \<times> int \<times> int) list \<Rightarrow> mesh \<Rightarrow> error \<times> emit list + mesh" where
  "slice_all g bottom [] ms = Inr ms"
| "slice_all g bottom ((S, l, r) # rest) ms =
     (case slice g bottom S l r ms of Inl e \<Rightarrow> Inl e | Inr ms' \<Rightarrow> slice_all g bottom rest ms')"

subsection \<open>Faces (lines 1260-1333)\<close>

text \<open>
  The calls of \<^verbatim>\<open>slice\<close> for the cell in column \<open>X\<close> with flags \<open>v\<close> and first
  point \<open>P\<close>: left, middle and right (lines 1270-1300).
\<close>

definition cell_slices :: "int \<Rightarrow> 8 word \<Rightarrow> int \<Rightarrow> (int \<times> int \<times> int) list" where
  "cell_slices X v P =
     (if v AND FLAGD = 0 then [(X * 4, P, P + 1)] else []) @
     [(X * 4, P, - (P + 5))] @
     (if v AND FLAGL \<noteq> 0 then [(X * 4, - (P + 4), - (P + 5)), (X * 4, - (P + 8), - (P + 9))]
      else []) @
     [(X * 4, P + 12, - (P + 9))] @
     (if v AND FLAGU = 0 then [(X * 4, P + 12, P + 13)] else []) @
     (if v AND FLAGD = 0 then [(X * 4 + 1, P + 1, P + 2)] else []) @
     [(X * 4 + 1, - (P + 5), - (P + 6)), (X * 4 + 1, - (P + 9), - (P + 10))] @
     (if v AND FLAGU = 0 then [(X * 4 + 1, P + 13, P + 14)] else []) @
     (if v AND FLAGD = 0 then [(X * 4 + 2, P + 2, P + 3)] else []) @
     [(X * 4 + 2, - (P + 6), P + 3)] @
     (if v AND FLAGR \<noteq> 0
      then [(X * 4 + 2, - (P + 6), - (P + 7)), (X * 4 + 2, - (P + 10), - (P + 11))] else []) @
     [(X * 4 + 2, - (P + 10), P + 15)] @
     (if v AND FLAGU = 0 then [(X * 4 + 2, P + 14, P + 15)] else [])"

text \<open>Lines 1301-1323: joining to the cell on the right, whose first point is \<open>PR\<close>.\<close>

definition join_slices :: "int \<Rightarrow> 8 word \<Rightarrow> int \<Rightarrow> int \<Rightarrow> (int \<times> int \<times> int) list" where
  "join_slices X v P PR =
     [(X * 4 + 3, P + 3, PR + 0)] @
     (if v AND FLAGR \<noteq> 0
      then [(X * 4 + 3, - (P + 7), - (PR + 4)), (X * 4 + 3, - (P + 11), - (PR + 8))] else []) @
     [(X * 4 + 3, P + 15, PR + 12)]"

fun cell_faces ::
  "params \<Rightarrow> maze \<Rightarrow> int \<Rightarrow> (int \<times> int) list \<Rightarrow> mesh \<Rightarrow> (error \<times> emit list + mesh) option" where
  "cell_faces g m bottom [] ms = Some (Inr ms)"
| "cell_faces g m bottom ((X, Y) # cs) ms =
     (case test g m X Y of
        None \<Rightarrow> None
      | Some v \<Rightarrow>
          if v AND FLAGA = 0 \<or> v AND FLAGI \<noteq> 0 then cell_faces g m bottom cs ms
          else (case slice_all g bottom
                       (cell_slices X v (pstart ms X Y) @
                        (let x = (if X + 1 \<ge> W g then X + 1 - W g else X + 1);
                             y = (if X + 1 \<ge> W g then Y + helix g else Y)
                         in if y \<ge> 0 \<and> y < H g \<and> pstart ms x y \<noteq> 0
                            then join_slices X v (pstart ms X Y) (pstart ms x y) else []))
                       ms of
                  Inl e \<Rightarrow> Some (Inl e)
                | Inr ms' \<Rightarrow> cell_faces g m bottom cs ms'))"

text \<open>Lines 1326-1333: closing the top and the base of each slice.\<close>

fun top_faces ::
  "params \<Rightarrow> int \<Rightarrow> int \<Rightarrow> int list \<Rightarrow> mesh \<Rightarrow> error \<times> emit list + mesh" where
  "top_faces g bottom tp [] ms = Inr ms"
| "top_faces g bottom tp (S # rest) ms =
     (case slice g bottom S
             (tp + S + (if sl (slices ms S) < 0 then W g * 4 else 0))
             (tp + (S + 1) smod (W g * 4) + (if sr (slices ms S) < 0 then W g * 4 else 0))
             ms of
        Inl e \<Rightarrow> Inl e
      | Inr ms1 \<Rightarrow>
          (case slice_all g bottom
                  [(S, tp + S + W g * 4, tp + (S + 1) smod (W g * 4) + W g * 4),
                   (S, tp + S + 2 * W g * 4, tp + (S + 1) smod (W g * 4) + 2 * W g * 4),
                   (S, bottom + S, bottom + (S + 1) smod (W g * 4))] ms1 of
             Inl e \<Rightarrow> Inl e
           | Inr ms2 \<Rightarrow> top_faces g bottom tp rest ms2))"

subsection \<open>\<^verbatim>\<open>makemaze\<close> (lines 827-1337)\<close>

text \<open>
  What one call leaves: the maze, \<open>maxx\<close>, the entry angle, the state of the
  random source and everything printed.
\<close>

record result =
  final_maze :: maze
  exit_x :: int
  entrya :: angle
  final_rng :: "32 word"
  printed :: "emit list"

text \<open>
  Lines 926-1073: either mode, giving the maze, \<open>maxx\<close>, the entry angle that
  line 1073 computes from \<open>maxx\<close>, and the random state.
\<close>

definition build_maze ::
  "params \<Rightarrow> maze \<Rightarrow> int \<Rightarrow> int \<Rightarrow> 32 word \<Rightarrow>
     (error + maze \<times> int \<times> angle \<times> 32 word) option" where
  "build_maze g m X Y s =
     (if testmaze g
      then (case testmaze_mode g m of
              None \<Rightarrow> None
            | Some (Inl e) \<Rightarrow> Some (Inl e)
            | Some (Inr (m', mxx)) \<Rightarrow> Some (Inr (m', mxx, Turn mxx (W g), s)))
      else (case maze_mode g m X Y s of
              None \<Rightarrow> None
            | Some (Inl e) \<Rightarrow> Some (Inl e)
            | Some (Inr st) \<Rightarrow>
                Some (Inr (maze_of st, maxx st, Turn (maxx st) (W g), rng_state st))))"

text \<open>
  Lines 849-1073: the maze as the walk leaves it, \<open>maxx\<close>, the entry angle and
  the random state.
\<close>

definition walk_maze ::
  "params \<Rightarrow> 32 word \<Rightarrow> (error + maze \<times> int \<times> angle \<times> 32 word) option" where
  "walk_maze g s =
     (case park g (clear_band g) of
        Inl e \<Rightarrow> Some (Inl e)
      | Inr (m0, X, Y) \<Rightarrow> build_maze g m0 X Y s)"

text \<open>
  One call, after the output \<open>prt\<close> that the run has printed so far. The comment
  of line 839 is printed before the size check of lines 842-843, the comment of
  line 1071 only by the real maze. The park ridge (lines 1338-1387) is a fixed
  list of points and faces after the polyhedron and is not part of the model.
\<close>

definition makemaze ::
  "params \<Rightarrow> 32 word \<Rightarrow> emit list \<Rightarrow> (error \<times> emit list + result) option" where
  "makemaze g s prt =
     (if W g < 3 \<or> H g < 1 then Some (Inl (TooSmall, prt @ [Comment]))
      else
        (case walk_maze g s of
           None \<Rightarrow> None
         | Some (Inl e) \<Rightarrow> Some (Inl (e, prt @ [Comment]))
         | Some (Inr (m1, mxx, a, s')) \<Rightarrow>
        (case carve_entry g m1 mxx of
           None \<Rightarrow> None
         | Some (Inl e) \<Rightarrow>
             Some (Inl (e, prt @ (if testmaze g then [Comment] else [Comment, Comment])))
         | Some (Inr m2) \<Rightarrow>
        (case make_points g m2 (prt @ (if testmaze g then [Comment] else [Comment, Comment])) of
           None \<Rightarrow> None
         | Some (Inl e) \<Rightarrow> Some (Inl e)
         | Some (Inr (ms, bottom, tp)) \<Rightarrow>
        (case cell_faces g m2 bottom (cells g) ms of
           None \<Rightarrow> None
         | Some (Inl e) \<Rightarrow> Some (Inl e)
         | Some (Inr ms1) \<Rightarrow>
        (case top_faces g bottom tp [0..W g * 4 - 1] ms1 of
           Inl e \<Rightarrow> Some (Inl e)
         | Inr ms2 \<Rightarrow>
             Some (Inr \<lparr>final_maze = m2, exit_x = mxx, entrya = a,
                        final_rng = s', printed = out ms2\<rparr>)))))))"

subsection \<open>The nubs (lines 1530-1574)\<close>

text \<open>
  The faces of the nub polyhedron, as the three loops and the three fixed lines
  of lines 1559-1572 print them.
\<close>

definition nub_faces :: "int list list" where
  "nub_faces =
     concat (map (\<lambda>Z. concat (map (\<lambda>X.
        [[Z * 4 + X + 20, Z * 4 + X + 21, Z * 4 + X + 17],
         [Z * 4 + X + 20, Z * 4 + X + 17, Z * 4 + X + 16]]) [0..2])) [0..2]) @
     concat (map (\<lambda>Z.
        [[Z * 4 + 4, Z * 4 + 20, Z * 4 + 16], [Z * 4 + 4, Z * 4 + 16, Z * 4 + 0],
         [Z * 4 + 23, Z * 4 + 7, Z * 4 + 3], [Z * 4 + 23, Z * 4 + 3, Z * 4 + 19]]) [0..2]) @
     concat (map (\<lambda>X.
        [[X + 28, X + 12, X + 13], [X + 28, X + 13, X + 29],
         [X + 0, X + 16, X + 17], [X + 0, X + 17, X + 1]]) [0..2]) @
     [[0, 1, 5], [0, 5, 4], [4, 5, 9], [4, 9, 8], [8, 9, 12], [9, 13, 12],
      [1, 2, 6], [1, 6, 5], [5, 6, 10], [5, 10, 9], [9, 10, 14], [9, 14, 13],
      [2, 3, 6], [3, 7, 6], [6, 7, 11], [6, 11, 10], [10, 11, 15], [10, 15, 14]]"

text \<open>
  \<^verbatim>\<open>addnub\<close> after the output \<open>prt\<close>: the two loops of lines 1546-1557 print
  16 points each, numbered here as the faces number them, then come the faces.
  The coordinates and the angles of the rotations are floating point and left
  out, as is the division by \<^verbatim>\<open>nubs\<close> of line 1533, which line 800 has done
  before.
\<close>

definition addnub :: "emit list \<Rightarrow> emit list" where
  "addnub prt =
     prt @ map Point [0..31] @ concat (map (\<lambda>f. [FOpen] @ map FNum f @ [FClose]) nub_faces)"

subsection \<open>The parts of the box (lines 760-826, 1389-1595)\<close>

text \<open>
  A run: the options (\<open>inside\<close> of \<open>opts\<close> is the option \<^verbatim>\<open>-i\<close>; its \<open>W\<close>,
  \<open>H\<close>, \<open>MAXY\<close> and \<open>band\<close> are not read), the number of parts, the part asked
  for (0: all of them) and \<^verbatim>\<open>basewide\<close>. \<open>dims p ins\<close> gives \<open>W\<close>, \<open>H\<close>,
  \<open>MAXY\<close> and \<open>band\<close> of the maze that part \<open>p\<close> carries inside (\<open>ins\<close>) or
  outside: the values that \<^verbatim>\<open>makemaze\<close> computes in floating point from the
  physical dimensions of the part.
\<close>

record job =
  opts :: params
  parts :: int
  part :: int
  basewide :: bool
  dims :: "int \<Rightarrow> bool \<Rightarrow> int \<times> int \<times> int \<times> (int \<Rightarrow> int \<Rightarrow> bool)"

definition maze_params :: "job \<Rightarrow> int \<Rightarrow> bool \<Rightarrow> params" where
  "maze_params j p ins =
     (case dims j p ins of
        (w, h, my, b) \<Rightarrow> (opts j)\<lparr>W := w, H := h, inside := ins, MAXY := my, band := b\<rparr>)"

text \<open>Lines 768-787: whether part \<open>p\<close> has a maze inside, and outside.\<close>

definition mazeinside :: "job \<Rightarrow> int \<Rightarrow> bool" where
  "mazeinside j p =
     (p \<noteq> 1 \<and> (if flip (opts j) \<and> p mod 2 = 1 then \<not> inside (opts j) else inside (opts j)))"

definition mazeoutside :: "job \<Rightarrow> int \<Rightarrow> bool" where
  "mazeoutside j p =
     (p \<noteq> parts j \<and>
      (if flip (opts j) \<and> p mod 2 \<noteq> 1 then inside (opts j) else \<not> inside (opts j)))"

text \<open>
  Lines 1419-1422: one of the two conditional calls of \<^verbatim>\<open>makemaze\<close>, giving the
  random state and the output after it.
\<close>

definition maze_call ::
  "job \<Rightarrow> int \<Rightarrow> bool \<Rightarrow> bool \<Rightarrow> 32 word \<Rightarrow> emit list \<Rightarrow>
     (error \<times> emit list + 32 word \<times> emit list) option" where
  "maze_call j p ins wanted s prt =
     (if wanted
      then (case makemaze (maze_params j p ins) s prt of
              None \<Rightarrow> None
            | Some (Inl e) \<Rightarrow> Some (Inl e)
            | Some (Inr r) \<Rightarrow> Some (Inr (final_rng r, printed r)))
      else Some (Inr (s, prt)))"

text \<open>
  \<^verbatim>\<open>box (part)\<close> after the output \<open>prt\<close>: the division by \<^verbatim>\<open>nubs\<close> of line
  800, the comment of line 820, the mazes, the draw of line 1526 (its value is an
  angle and only the random state is kept), and the nubs of lines 1575-1578. The
  entry angle that \<^verbatim>\<open>makemaze\<close> leaves only feeds the angles printed with the
  mark and the nubs, which are part of the text left out.
\<close>

definition box ::
  "job \<Rightarrow> int \<Rightarrow> 32 word \<Rightarrow> emit list \<Rightarrow> (error \<times> emit list + 32 word \<times> emit list) option" where
  "box j p s prt =
     (if nubs (opts j) = 0 then Some (Inl (DivideByZero, prt))
      else
        (case maze_call j p True (mazeinside j p) s (prt @ [Comment]) of
           None \<Rightarrow> None
         | Some (Inl e) \<Rightarrow> Some (Inl e)
         | Some (Inr (s1, o1)) \<Rightarrow>
        (case maze_call j p False (mazeoutside j p) s1 o1 of
           None \<Rightarrow> None
         | Some (Inl e) \<Rightarrow> Some (Inl e)
         | Some (Inr (s2, o2)) \<Rightarrow>
             Some (Inr
               (if (mazeoutside j p \<and> \<not> flip (opts j) \<and> p = parts j) \<or>
                   (\<not> mazeoutside j p \<and> p + 1 = parts j)
                then s2
                else if p < parts j \<and> \<not> basewide j then snd (random_int 360 s2) else s2,
                (if \<not> mazeoutside j p \<and> p < parts j then addnub else id)
                  ((if \<not> mazeinside j p \<and> p > 1 then addnub else id) o2))))))"

text \<open>The loop of lines 1592-1593 over the parts \<open>ps\<close> still to make.\<close>

fun boxes ::
  "job \<Rightarrow> int list \<Rightarrow> 32 word \<Rightarrow> emit list \<Rightarrow> (error \<times> emit list + 32 word \<times> emit list) option" where
  "boxes j [] s prt = Some (Inr (s, prt))"
| "boxes j (p # ps) s prt =
     (case box j p s prt of
        None \<Rightarrow> None
      | Some (Inl e) \<Rightarrow> Some (Inl e)
      | Some (Inr (s', prt')) \<Rightarrow> boxes j ps s' prt')"

text \<open>
  Lines 1589-1595 from the random state \<open>s\<close>: what the whole run prints, or the
  error that stops it with what had been printed before.
\<close>

definition run :: "job \<Rightarrow> 32 word \<Rightarrow> (error \<times> emit list + 32 word \<times> emit list) option" where
  "run j s = (if part j \<noteq> 0 then box j (part j) s [] else boxes j [1..parts j] s [])"

section \<open>Notions used to state the properties\<close>

text \<open>
  What a cell contributes to a query: \<open>FLAGI\<close> when its row is outside the
  array, its stored byte otherwise.
\<close>

definition cellval :: "params \<Rightarrow> maze \<Rightarrow> int \<Rightarrow> int \<Rightarrow> 8 word" where
  "cellval g m x y = (if y < 0 \<or> y \<ge> H g then FLAGI else m x y)"

fun or_list :: "8 word list \<Rightarrow> 8 word" where
  "or_list [] = 0"
| "or_list (a # as) = a OR or_list as"

text \<open>
  The \<open>k\<close>-th copy of the cell \<open>(x, y)\<close>: \<open>k\<close> steps of \<^verbatim>\<open>W / nubs\<close> to the
  right, \<open>helix\<close> rows up for each time round the seam, and one row down for each
  step when \<open>helix = nubs\<close>.
\<close>

definition copy_x :: "params \<Rightarrow> int \<Rightarrow> int \<Rightarrow> int" where
  "copy_x g x k = (x + k * (W g sdiv nubs g)) mod W g"

definition copy_y :: "params \<Rightarrow> int \<Rightarrow> int \<Rightarrow> int \<Rightarrow> int" where
  "copy_y g x y k =
     y + helix g * ((x + k * (W g sdiv nubs g)) div W g) - (if helix g = nubs g then k else 0)"

definition group_cells :: "params \<Rightarrow> maze \<Rightarrow> int \<Rightarrow> int \<Rightarrow> nat \<Rightarrow> 8 word list" where
  "group_cells g m x y n =
     map (\<lambda>k. cellval g m (copy_x g x (int k)) (copy_y g x y (int k))) [0..<n]"

text \<open>
  The group query as the specification words it: the copies are \<^verbatim>\<open>W / nubs\<close>
  apart, \<open>x\<close> wraps with \<open>helix\<close> rows per time round, and when \<open>helix = nubs\<close>
  \<open>y\<close> goes down one row per full traversal, that is per time round.
\<close>

definition groupFlags_spec :: "params \<Rightarrow> maze \<Rightarrow> int \<Rightarrow> int \<Rightarrow> 8 word" where
  "groupFlags_spec g m x y =
     or_list (map (\<lambda>k. cellval g m (copy_x g x (int k))
                 (y + helix g * ((x + int k * (W g sdiv nubs g)) div W g)
                    - (if helix g = nubs g
                       then (x mod W g + int k * (W g sdiv nubs g)) div W g else 0)))
              [0..<nat (nubs g)])"

text \<open>A direction is open when the query of its neighbour is 0.\<close>

definition dir_open :: "direction \<Rightarrow> 8 word \<Rightarrow> 8 word \<Rightarrow> 8 word \<Rightarrow> 8 word \<Rightarrow> bool" where
  "dir_open dir r l d u =
     (case dir of Right \<Rightarrow> r = 0 | Left \<Rightarrow> l = 0 | Down \<Rightarrow> d = 0 | Up \<Rightarrow> u = 0)"


text \<open>A cell is valid when its group query returns and does not report \<open>FLAGI\<close>.\<close>

definition valid_cell :: "params \<Rightarrow> maze \<Rightarrow> int \<Rightarrow> int \<Rightarrow> bool" where
  "valid_cell g m x y = (case test g m x y of None \<Rightarrow> False | Some v \<Rightarrow> v AND FLAGI = 0)"

text \<open>The condition of line 932 for the cell \<open>(x, y)\<close> and its right neighbour.\<close>

definition valid_pair :: "params \<Rightarrow> maze \<Rightarrow> int \<Rightarrow> int \<Rightarrow> bool" where
  "valid_pair g m x y = (valid_cell g m x y \<and> valid_cell g m (x + 1) y)"

text \<open>
  The right neighbour as lines 935-941 compute it, and the left neighbour, its
  inverse on the columns of the grid.
\<close>

definition right_of :: "params \<Rightarrow> int \<times> int \<Rightarrow> int \<times> int" where
  "right_of g c = (if fst c + 1 \<ge> W g then (fst c + 1 - W g, snd c + helix g) else (fst c + 1, snd c))"

definition left_of :: "params \<Rightarrow> int \<times> int \<Rightarrow> int \<times> int" where
  "left_of g c = (if fst c - 1 < 0 then (fst c - 1 + W g, snd c - helix g) else (fst c - 1, snd c))"

text \<open>
  The maze after the test pattern has visited the cells \<open>cs\<close>: \<open>FLAGR\<close> on the
  visited cells that form a valid pair with their right neighbour, \<open>FLAGL\<close> on
  the right neighbours of such cells.
\<close>

definition opened :: "params \<Rightarrow> maze \<Rightarrow> (int \<times> int) list \<Rightarrow> maze" where
  "opened g m cs =
     (\<lambda>x y. m x y OR
        (if (x, y) \<in> set cs \<and> valid_pair g m x y then FLAGR else 0) OR
        (if 0 \<le> x \<and> x < W g \<and> left_of g (x, y) \<in> set cs \<and>
            valid_pair g m (fst (left_of g (x, y))) (snd (left_of g (x, y)))
         then FLAGL else 0))"

text \<open>
  The maze after the whole test pattern: in the grid, a cell has \<open>FLAGR\<close> added
  when it and its right neighbour are valid, and \<open>FLAGL\<close> added when it and its
  left neighbour are valid; nothing else changes.
\<close>

definition test_pattern :: "params \<Rightarrow> maze \<Rightarrow> maze" where
  "test_pattern g m =
     (\<lambda>x y. if 0 \<le> x \<and> x < W g \<and> 0 \<le> y \<and> y < H g
            then m x y OR
                 (if valid_cell g m x y \<and> valid_cell g m (x + 1) y then FLAGR else 0) OR
                 (if valid_cell g m (x - 1) y \<and> valid_cell g m x y then FLAGL else 0)
            else m x y)"

text \<open>The cells of the array.\<close>

definition in_grid :: "params \<Rightarrow> int \<Rightarrow> int \<Rightarrow> bool" where
  "in_grid g x y = (0 \<le> x \<and> x < W g \<and> 0 \<le> y \<and> y < H g)"

text \<open>
  An open edge: the neighbour of a cell in a direction (to the right and to the
  left across the seam by the helix rule), the flag that the cell gets and the
  flag that the neighbour gets, and the maze with the two flags added.
\<close>

definition neighbour :: "params \<Rightarrow> int \<times> int \<Rightarrow> direction \<Rightarrow> int \<times> int" where
  "neighbour g c dir =
     (case dir of Right \<Rightarrow> right_of g c | Left \<Rightarrow> left_of g c
      | Down \<Rightarrow> (fst c, snd c - 1) | Up \<Rightarrow> (fst c, snd c + 1))"

definition flag_of :: "direction \<Rightarrow> 8 word" where
  "flag_of dir = (case dir of Right \<Rightarrow> FLAGR | Left \<Rightarrow> FLAGL | Down \<Rightarrow> FLAGD | Up \<Rightarrow> FLAGU)"

definition back_of :: "direction \<Rightarrow> 8 word" where
  "back_of dir = (case dir of Right \<Rightarrow> FLAGL | Left \<Rightarrow> FLAGR | Down \<Rightarrow> FLAGU | Up \<Rightarrow> FLAGD)"

definition open_edge :: "params \<Rightarrow> maze \<Rightarrow> int \<times> int \<Rightarrow> direction \<Rightarrow> maze" where
  "open_edge g m c dir =
     (\<lambda>x y. m x y OR (if (x, y) = c then flag_of dir else 0) OR
              (if (x, y) = neighbour g c dir then back_of dir else 0))"

text \<open>The number of cells of the array whose byte is still 0.\<close>

definition zeros :: "params \<Rightarrow> maze \<Rightarrow> nat" where
  "zeros g m = length (filter (\<lambda>c. m (fst c) (snd c) = 0) (cells g))"

text \<open>
  The maze after lines 849-925 when the park point is the plain one (no vertical
  parking, no letter): \<open>FLAGI\<close> on the cells outside the band, the edge between
  \<open>(0, helix + 1)\<close> and \<open>(1, helix + 1)\<close>.
\<close>

definition parked :: "params \<Rightarrow> maze" where
  "parked g =
     (\<lambda>x y. (if in_grid g x y \<and> band g x y then FLAGI else 0) OR
            (if x = 0 \<and> y = helix g + 1 then FLAGR else 0) OR
            (if x = 1 \<and> y = helix g + 1 then FLAGL else 0))"

text \<open>The state in which the walk from the cell \<open>(X, Y)\<close> starts (lines 949-964).\<close>

definition walk_start :: "maze \<Rightarrow> int \<Rightarrow> int \<Rightarrow> 32 word \<Rightarrow> fstate" where
  "walk_start m X Y s = \<lparr>maze_of = m, queue = [Pos X Y 0], maxn = 0, maxx = 0, rng_state = s\<rparr>"

text \<open>
  A cell \<open>(X, Y)\<close> just moved to counts for the exit when the query of the cell
  above it reports \<open>FLAGI\<close> and, if \<open>flip\<close> is set and the maze is outside, its
  column is a multiple of \<^verbatim>\<open>W / nubs\<close>.
\<close>

definition eligible :: "params \<Rightarrow> maze \<Rightarrow> int \<Rightarrow> int \<Rightarrow> bool" where
  "eligible g m X Y =
     ((case test g m X (Y + 1) of None \<Rightarrow> False | Some t \<Rightarrow> t AND FLAGI \<noteq> 0) \<and>
      (if flip g \<and> \<not> inside g then X smod (W g sdiv nubs g) = 0 else True))"

text \<open>
  The states of the walk that started in \<open>a\<close>: \<open>a\<close> itself, and the state after
  one more turn of the loop from a state already reached.
\<close>

inductive reaches :: "params \<Rightarrow> fstate \<Rightarrow> fstate \<Rightarrow> bool" for g a where
  start: "reaches g a a"
| step: "reaches g a b \<Longrightarrow> queue b = p # ps \<Longrightarrow> expand g b p ps = Some (Inr c) \<Longrightarrow> reaches g a c"

text \<open>Grids used as concrete inputs.\<close>

definition grid6 :: params where
  "grid6 = \<lparr>W = 6, H = 3, helix = 0, nubs = 2, flip = False, inside = False, noa = False,
            parkvertical = False, testmaze = False, mazecomplexity = 5, MAXY = 100,
            band = (\<lambda>X Y. Y < 1 \<or> Y > 1)\<rparr>"

definition helix6 :: params where
  "helix6 = \<lparr>W = 6, H = 8, helix = 3, nubs = 3, flip = False, inside = False, noa = False,
             parkvertical = False, testmaze = False, mazecomplexity = 5, MAXY = 100,
             band = (\<lambda>X Y. 2 * Y + X < 8 \<or> 2 * Y + X > 12)\<rparr>"

text \<open>A ring of one row and three columns, with one nub and without \<open>flip\<close>.\<close>

definition ring3 :: params where
  "ring3 = grid6\<lparr>W := 3, nubs := 1\<rparr>"

text \<open>
  A grid of two rows with as many columns as nubs, three, and with \<open>flip\<close> set:
  every column is a multiple of \<^verbatim>\<open>W / nubs\<close> = 1.
\<close>

definition tri3 :: params where
  "tri3 = grid6\<lparr>W := 3, H := 4, nubs := 3, flip := True, band := (\<lambda>X Y. Y < 1 \<or> Y > 2)\<rparr>"

text \<open>A ring of one row and eight columns, with two nubs and without \<open>flip\<close>.\<close>

definition grid8 :: params where
  "grid8 = grid6\<lparr>W := 8\<rparr>"

text \<open>A grid of two rows and six columns, with two nubs and with \<open>flip\<close> set.\<close>

definition flip6 :: params where
  "flip6 = grid6\<lparr>H := 4, flip := True, band := (\<lambda>X Y. Y < 1 \<or> Y > 2)\<rparr>"

text \<open>
  The grid \<open>helix6\<close> with a band of two rows instead of three: four groups of
  three cells, of which the park point takes two.
\<close>

definition helix7 :: params where
  "helix7 = helix6\<lparr>H := 7, band := (\<lambda>X Y. 2 * Y + X < 8 \<or> 2 * Y + X > 11)\<rparr>"

text \<open>
  A grid with two nubs and a helix of 4, as \<^verbatim>\<open>-N 2 -H 4\<close> gives (lines 592-600
  leave both as they are), with a band of three rows.
\<close>

definition helix4 :: params where
  "helix4 = \<lparr>W = 4, H = 9, helix = 4, nubs = 2, flip = False, inside = False, noa = False,
             parkvertical = False, testmaze = False, mazecomplexity = 5, MAXY = 100,
             band = (\<lambda>X Y. Y + X < 5 \<or> Y + X > 7)\<rparr>"

text \<open>
  A run of two parts with the mazes inside, in which the grid computed for the
  maze inside part 2 has no row.
\<close>

definition inside2 :: job where
  "inside2 = \<lparr>opts = grid6\<lparr>inside := True\<rparr>, parts = 2, part = 0, basewide = False,
               dims = (\<lambda>p ins. (6, 0, 100, \<lambda>X Y. True))\<rparr>"

text \<open>
  The maze of \<open>grid6\<close> after lines 849-925 (rows 0 and 2 outside the band, the
  park point at \<open>(0, 1)\<close> and \<open>(1, 1)\<close>), and the state in which its walk starts
  with the seed 1.
\<close>

definition park6 :: maze where
  "park6 = (\<lambda>x y. if 0 \<le> x \<and> x < 6 \<and> 0 \<le> y \<and> y < 3
                   then (if y = 1 then (if x = 0 then FLAGR else if x = 1 then FLAGL else 0)
                         else FLAGI)
                   else 0)"

definition start6 :: fstate where
  "start6 = \<lparr>maze_of = park6, queue = [Pos 1 1 0], maxn = 0, maxx = 0, rng_state = 1\<rparr>"

text \<open>A mesh state in which every slice has its three base points and its boundaries set.\<close>

definition mesh6 :: mesh where
  "mesh6 = \<lparr>slices = (\<lambda>S. \<lparr>sl = 48 + S, sr = - (25 + S), sp = [S, - (24 + S), 48 + S, S]\<rparr>),
            next_point = 72, pstart = (\<lambda>X Y. 0), out = [Comment, Comment]\<rparr>"

section \<open>Properties\<close>

subsection \<open>Closed forms of the query\<close>

lemma wrap_neg_eq:
  assumes "0 < W g"
  shows "wrap_neg g x y =
           Some (if x < 0 then (x mod W g, y + helix g * (x div W g)) else (x, y))"
proof (induction "nat (- x)" arbitrary: x y rule: less_induct)
  case less
  show ?case
  proof (cases "x < 0")
    case False
    then show ?thesis by (subst wrap_neg.simps) simp
  next
    case True
    have step: "wrap_neg g x y = wrap_neg g (x + W g) (y - helix g)"
      using True by (subst wrap_neg.simps) simp
    show ?thesis
    proof (cases "x + W g < 0")
      case True
      have "nat (- (x + W g)) < nat (- x)" using assms True by simp
      from less [OF this] True
      have "wrap_neg g (x + W g) (y - helix g) =
              Some ((x + W g) mod W g, y - helix g + helix g * ((x + W g) div W g))"
        by simp
      moreover have "(x + W g) div W g = x div W g + 1"
        using assms div_add_self2 [of "W g" x] by simp
      ultimately show ?thesis using \<open>x < 0\<close> step by (simp add: algebra_simps)
    next
      case False
      then have rng: "0 \<le> x + W g" "x + W g < W g" using \<open>x < 0\<close> by simp_all
      have "(x + W g) mod W g = x + W g" using rng by (rule mod_pos_pos_trivial)
      then have m: "x mod W g = x + W g" by simp
      have "(x + W g) div W g = 0" using rng by (rule div_pos_pos_trivial)
      moreover have "(x + W g) div W g = x div W g + 1"
        using assms div_add_self2 [of "W g" x] by simp
      ultimately have d: "x div W g = - 1" by simp
      have "wrap_neg g (x + W g) (y - helix g) = Some (x + W g, y - helix g)"
        using False by (subst wrap_neg.simps) simp
      then show ?thesis using \<open>x < 0\<close> step m d by simp
    qed
  qed
qed

lemma wrap_pos_eq:
  assumes "0 < W g"
  shows "wrap_pos g x y =
           Some (if x \<ge> W g then (x mod W g, y + helix g * (x div W g)) else (x, y))"
proof (induction "nat x" arbitrary: x y rule: less_induct)
  case less
  show ?case
  proof (cases "x \<ge> W g")
    case False
    then show ?thesis by (subst wrap_pos.simps) simp
  next
    case True
    have step: "wrap_pos g x y = wrap_pos g (x - W g) (y + helix g)"
      using True by (subst wrap_pos.simps) simp
    have dv: "(x - W g) div W g = x div W g - 1"
      using assms div_add_self2 [of "W g" "x - W g"] by simp
    have md: "(x - W g) mod W g = x mod W g"
      using mod_add_self2 [of "x - W g" "W g"] by simp
    show ?thesis
    proof (cases "x - W g \<ge> W g")
      case True
      have "nat (x - W g) < nat x" using assms True by simp
      from less [OF this] True
      have "wrap_pos g (x - W g) (y + helix g) =
              Some ((x - W g) mod W g, y + helix g + helix g * ((x - W g) div W g))"
        by simp
      then show ?thesis using \<open>x \<ge> W g\<close> step dv md by (simp add: algebra_simps)
    next
      case False
      then have rng: "0 \<le> x - W g" "x - W g < W g" using \<open>x \<ge> W g\<close> by simp_all
      have "(x - W g) mod W g = x - W g" using rng by (rule mod_pos_pos_trivial)
      then have m: "x mod W g = x - W g" using md by simp
      have "(x - W g) div W g = 0" using rng by (rule div_pos_pos_trivial)
      then have d: "x div W g = 1" using dv by simp
      have "wrap_pos g (x - W g) (y + helix g) = Some (x - W g, y + helix g)"
        using False by (subst wrap_pos.simps) simp
      then show ?thesis using \<open>x \<ge> W g\<close> step m d by simp
    qed
  qed
qed

lemma wrap_eq:
  assumes "0 < W g"
  shows "wrap g x y = Some (x mod W g, y + helix g * (x div W g))"
proof (cases "x < 0")
  case True
  have "x mod W g < W g" using assms by simp
  then show ?thesis
    using True by (simp add: wrap_def wrap_neg_eq [OF assms] wrap_pos_eq [OF assms])
next
  case False
  show ?thesis
  proof (cases "x \<ge> W g")
    case True
    then show ?thesis
      using False by (simp add: wrap_def wrap_neg_eq [OF assms] wrap_pos_eq [OF assms])
  next
    case False
    then have "x mod W g = x" "x div W g = 0" using \<open>\<not> x < 0\<close> by simp_all
    then show ?thesis
      using False \<open>\<not> x < 0\<close>
      by (simp add: wrap_def wrap_neg_eq [OF assms] wrap_pos_eq [OF assms])
  qed
qed

lemma div_split_add:
  fixes a b w :: int
  assumes "0 < w"
  shows "(a + b) div w = a div w + (a mod w + b) div w"
proof -
  have "a + b = w * (a div w) + (a mod w + b)" by simp
  then have "(a + b) div w = (w * (a div w) + (a mod w + b)) div w" by simp
  also have "\<dots> = a div w + (a mod w + b) div w"
    using assms by (simp only: div_mult_self4 [of w "a div w" "a mod w + b"])
  finally show ?thesis .
qed

lemma sdiv_pos_nonneg:
  fixes a b :: int
  shows "0 < a \<Longrightarrow> 0 < b \<Longrightarrow> a sdiv b = a div b"
  by (simp add: signed_divide_int_def)

lemma copy_x_shift:
  "copy_x g ((x + W g sdiv nubs g) mod W g) k = copy_x g x (k + 1)"
  by (simp add: copy_x_def algebra_simps mod_simps)

lemma copy_y_shift:
  assumes "0 < W g"
  shows "copy_y g ((x + W g sdiv nubs g) mod W g)
           ((if helix g = nubs g then y + helix g * ((x + W g sdiv nubs g) div W g) - 1
             else y + helix g * ((x + W g sdiv nubs g) div W g))) k
         = copy_y g x y (k + 1)"
proof -
  have "(x + (k + 1) * (W g sdiv nubs g)) div W g =
        (x + W g sdiv nubs g) div W g +
        ((x + W g sdiv nubs g) mod W g + k * (W g sdiv nubs g)) div W g"
    using div_split_add [OF assms, of "x + W g sdiv nubs g" "k * (W g sdiv nubs g)"]
    by (simp add: algebra_simps)
  then show ?thesis by (simp add: copy_y_def algebra_simps)
qed

lemma test_loop_eq:
  assumes w: "0 < W g" and d: "0 \<le> W g sdiv nubs g"
  shows "0 \<le> x \<Longrightarrow> x < W g \<Longrightarrow>
         test_loop g m (int (Suc n)) x y v = Some (v OR or_list (group_cells g m x y (Suc n)))"
proof (induction n arbitrary: x y v)
  case 0
  have "copy_x g x 0 = x" "copy_y g x y 0 = y"
    using 0 by (simp_all add: copy_x_def copy_y_def)
  then show ?case
    by (subst test_loop.simps) (simp add: group_cells_def cellval_def)
next
  case (Suc n)
  let ?x' = "(x + W g sdiv nubs g) mod W g"
  let ?y' = "(if helix g = nubs g then y + helix g * ((x + W g sdiv nubs g) div W g) - 1
             else y + helix g * ((x + W g sdiv nubs g) div W g))"
  let ?v' = "v OR cellval g m x y"
  have wp: "wrap_pos g (x + W g sdiv nubs g) y =
              Some (?x', y + helix g * ((x + W g sdiv nubs g) div W g))"
  proof (cases "x + W g sdiv nubs g \<ge> W g")
    case True
    then show ?thesis by (simp add: wrap_pos_eq [OF w])
  next
    case False
    then have "(x + W g sdiv nubs g) mod W g = x + W g sdiv nubs g"
      "(x + W g sdiv nubs g) div W g = 0"
      using Suc.prems d by simp_all
    then show ?thesis using False by (simp add: wrap_pos_eq [OF w])
  qed
  have rng: "0 \<le> ?x'" "?x' < W g" using w by simp_all
  have step: "test_loop g m (int (Suc (Suc n))) x y v = test_loop g m (int (Suc n)) ?x' ?y' ?v'"
    by (subst test_loop.simps) (simp add: wp cellval_def)
  have ih: "test_loop g m (int (Suc n)) ?x' ?y' ?v' =
              Some (?v' OR or_list (group_cells g m ?x' ?y' (Suc n)))"
    by (rule Suc.IH [OF rng])
  have shift: "group_cells g m ?x' ?y' (Suc n) =
                 map (\<lambda>k. cellval g m (copy_x g x (int (Suc k))) (copy_y g x y (int (Suc k))))
                   [0..<Suc n]"
    unfolding group_cells_def
    using copy_x_shift [of g x] copy_y_shift [OF w, of x y]
    by (simp add: add.commute)
  have c0: "copy_x g x 0 = x" "copy_y g x y 0 = y"
    using Suc.prems by (simp_all add: copy_x_def copy_y_def)
  have "group_cells g m x y (Suc (Suc n)) =
          cellval g m x y # group_cells g m ?x' ?y' (Suc n)"
    unfolding shift unfolding group_cells_def
    using c0
    by (simp only: upt_conv_Cons [of 0 "Suc (Suc n)"] map_Suc_upt [symmetric])
       (simp add: comp_def)
  then show ?case using step ih by (simp add: ac_simps)
qed

lemma group_cells_wrap:
  assumes w: "0 < W g"
  shows "group_cells g m (x mod W g) (y + helix g * (x div W g)) n = group_cells g m x y n"
proof -
  have "copy_x g (x mod W g) k = copy_x g x k" for k
    by (simp add: copy_x_def mod_simps)
  moreover have "copy_y g (x mod W g) (y + helix g * (x div W g)) k = copy_y g x y k" for k
    using div_split_add [OF w, of x "k * (W g sdiv nubs g)"]
    by (simp add: copy_y_def algebra_simps)
  ultimately show ?thesis by (simp add: group_cells_def)
qed

lemma test_eq:
  assumes w: "0 < W g" and n: "0 < nubs g"
  shows "test g m x y = Some (or_list (group_cells g m x y (nat (nubs g))))"
proof -
  have d: "0 \<le> W g sdiv nubs g"
    using w n by (simp add: sdiv_pos_nonneg pos_imp_zdiv_nonneg_iff)
  define k where "k = nat (nubs g) - 1"
  have k: "nubs g = int (Suc k)" using n by (simp add: k_def)
  have rng: "0 \<le> x mod W g" "x mod W g < W g" using w by simp_all
  have "test g m x y = test_loop g m (int (Suc k)) (x mod W g) (y + helix g * (x div W g)) 0"
    by (simp add: test_def wrap_eq [OF w] k)
  also have "\<dots> =
      Some (0 OR or_list (group_cells g m (x mod W g) (y + helix g * (x div W g)) (Suc k)))"
    by (rule test_loop_eq [OF w d rng])
  finally have "test g m x y = Some (or_list (group_cells g m x y (Suc k)))"
    by (simp add: group_cells_wrap [OF w])
  moreover have "nat (nubs g) = Suc k" using n by (simp add: k_def)
  ultimately show ?thesis by simp
qed

subsection \<open>The helix wrap\<close>

text \<open>
  Claim C4. For a cell \<open>(x, y)\<close> of the grid, normalising \<open>(x + W, y)\<close> gives
  \<open>(x, y + helix)\<close> and normalising \<open>(x - W, y)\<close> gives \<open>(x, y - helix)\<close>: each
  crossing of the seam moves \<open>y\<close> by \<open>helix\<close>.
\<close>

theorem wrap_helix_seam:
  assumes "0 < W g" and "0 \<le> x" and "x < W g"
  shows "wrap g (x + W g) y = Some (x, y + helix g) \<and>
         wrap g (x - W g) y = Some (x, y - helix g)"
proof -
  have m: "x mod W g = x" and d: "x div W g = 0" using assms by simp_all
  have "(x + W g) mod W g = x" using m by simp
  moreover have "(x + W g) div W g = 1"
    using assms d div_add_self2 [of "W g" x] by simp
  moreover have "(x - W g) mod W g = x"
    using m mod_add_self2 [of "x - W g" "W g"] by simp
  moreover have "(x - W g) div W g = - 1"
    using assms d div_add_self2 [of "W g" "x - W g"] by simp
  ultimately show ?thesis by (simp add: wrap_eq [OF assms(1)])
qed

theorem wrap_helix_seam_witness:
  "0 < W helix6 \<and> (0::int) \<le> 2 \<and> 2 < W helix6 \<and>
   wrap helix6 8 5 = Some (2, 8) \<and> wrap helix6 (- 4) 5 = Some (2, 2)"
  using wrap_helix_seam [of helix6 2 5] by (simp add: helix6_def)

subsection \<open>The group query\<close>

text \<open>
  Claim C6, as the code has it. For a grid with \<open>W > 0\<close> and \<open>nubs > 0\<close> the
  query returns the bitwise OR over the \<open>nubs\<close> copies \<open>k = 0, ..., nubs - 1\<close> of
  the cell: copy \<open>k\<close> is in column \<open>(x + k * (W / nubs)) mod W\<close>, \<open>helix\<close> rows up
  for each time round the seam and, when \<open>helix = nubs\<close>, \<open>k\<close> rows down, one for
  each step; a copy whose row is outside \<open>[0, H)\<close> contributes \<open>FLAGI\<close>.
\<close>

theorem test_group_or:
  assumes "0 < W g" and "0 < nubs g"
  shows "test g m x y = Some (or_list (group_cells g m x y (nat (nubs g))))"
  using assms by (rule test_eq)

theorem test_group_or_witness:
  "0 < W helix6 \<and> 0 < nubs helix6 \<and>
   test helix6 (\<lambda>x y. if x = 4 \<and> y = 3 then FLAGR else 0) 0 5 = Some FLAGR"
  using test_group_or [of helix6 "\<lambda>x y. if x = 4 \<and> y = 3 then FLAGR else 0" 0 5]
  by (simp add: helix6_def group_cells_def cellval_def copy_x_def copy_y_def flag_defs
      signed_divide_int_def upt_rec)

text \<open>
  The claim as worded, with one row down per full traversal, fails: with
  \<open>helix = nubs = 3\<close> and \<open>W = 6\<close> the third copy of the cell \<open>(0, 5)\<close> is
  \<open>(4, 3)\<close>, two rows down without any crossing of the seam.
\<close>

theorem test_group_or_counterexample:
  "test helix6 (\<lambda>x y. if x = 4 \<and> y = 3 then FLAGR else 0) 0 5 = Some FLAGR \<and>
   groupFlags_spec helix6 (\<lambda>x y. if x = 4 \<and> y = 3 then FLAGR else 0) 0 5 = 0"
  by code_simp

subsection \<open>Choosing a direction\<close>

lemma smod_nonneg:
  fixes a n :: int
  assumes "0 \<le> a" and "0 < n"
  shows "a smod n = a mod n"
proof (cases "a = 0")
  case True
  then show ?thesis by simp
next
  case False
  then have "0 < a" using assms by simp
  then show ?thesis using assms by (simp add: signed_modulo_int_def)
qed

lemma random_int_range:
  assumes "0 < n"
  shows "0 \<le> fst (random_int n s) \<and> fst (random_int n s) < n"
proof -
  let ?a = "uint (((s * 1103515245 + 12345) div 65536) mod 32768)"
  have "0 \<le> ?a" by simp
  then have "?a smod n = ?a mod n"
    using assms by (rule smod_nonneg)
  then show ?thesis using assms by (simp add: random_int_def)
qed

lemma choose_dir_some:
  assumes "0 \<le> v" and "v < weight r l d u"
  shows "\<exists>dir. choose_dir v r l d u = Some dir \<and> dir_open dir r l d u"
  using assms
  by (auto simp: choose_dir_def weight_def bias_defs Let_def dir_open_def split: if_splits)

lemma weight_nonneg: "0 \<le> weight r l d u"
  by (simp add: weight_def bias_defs)

lemma move_not_unexpected: "move g m X Y dir \<noteq> Inl UnexpectedMazePath"
  by (cases dir)
     (auto simp: move_def maze_or_def Let_def split: sum.splits if_splits)

lemma track_not_unexpected: "track_entry g m pn X Y mx mxx \<noteq> Some (Inl UnexpectedMazePath)"
  by (auto simp: track_entry_def entry_column_def split: option.splits sum.splits if_splits)

lemma grid6_simps:
  "W grid6 = 6" "H grid6 = 3" "helix grid6 = 0" "nubs grid6 = 2" "flip grid6 = False"
  "inside grid6 = False" "noa grid6 = False" "parkvertical grid6 = False"
  "testmaze grid6 = False" "mazecomplexity grid6 = 5" "MAXY grid6 = 100"
  by (simp_all add: grid6_def)

text \<open>
  Claim C3, as the code has it. The biases prefer left over right (\<open>BIASL = 2\<close>
  against \<open>BIASR = 1\<close>) and down over up (\<open>BIASD = 4\<close> against \<open>BIASU = 1\<close>):
  with all four directions open the sum is 8, and of the eight values that can be
  drawn one goes right, two go left, four go down and one goes up.
\<close>

theorem direction_weights:
  "BIASR < BIASL \<and> BIASU < BIASD \<and>
   weight 0 0 0 0 = 8 \<and>
   map (\<lambda>v. choose_dir v 0 0 0 0) [0, 1, 2, 3, 4, 5, 6, 7] =
     [Some Right, Some Left, Some Left, Some Down, Some Down, Some Down, Some Down, Some Up]"
  by (simp add: bias_defs weight_def choose_dir_def)

text \<open>
  The weight to the right does not exceed the weight to the left: of the draws
  0, 1, 2 only the first goes right.
\<close>

theorem direction_weights_counterexample:
  "\<not> (BIASR > BIASL) \<and> choose_dir 0 0 0 0 0 = Some Right \<and>
   choose_dir 1 0 0 0 0 = Some Left \<and> choose_dir 2 0 0 0 0 = Some Left"
  by (simp add: bias_defs choose_dir_def)

lemma expansion_by_queries:
  assumes "test g (maze_of st) (pos_x p + 1) (pos_y p) = Some r"
    and "test g (maze_of st) (pos_x p - 1) (pos_y p) = Some l"
    and "test g (maze_of st) (pos_x p) (pos_y p - 1) = Some d"
    and "test g (maze_of st) (pos_x p) (pos_y p + 1) = Some u"
  shows "(weight r l d u = 0 \<longrightarrow> expand g st p ps = Some (Inr (st\<lparr>queue := ps\<rparr>))) \<and>
         (0 < weight r l d u \<longrightarrow>
            (\<exists>dir. choose_dir (fst (random_int (weight r l d u) (rng_state st))) r l d u = Some dir
                   \<and> dir_open dir r l d u)) \<and>
         expand g st p ps \<noteq> Some (Inl UnexpectedMazePath)"
proof (intro conjI impI)
  assume "weight r l d u = 0"
  then show "expand g st p ps = Some (Inr (st\<lparr>queue := ps\<rparr>))"
    using assms by (simp add: expand_def explore_def)
next
  assume pos: "0 < weight r l d u"
  show "\<exists>dir. choose_dir (fst (random_int (weight r l d u) (rng_state st))) r l d u = Some dir
              \<and> dir_open dir r l d u"
    using random_int_range [OF pos, of "rng_state st"] by (intro choose_dir_some) simp_all
next
  show "expand g st p ps \<noteq> Some (Inl UnexpectedMazePath)"
  proof (cases "weight r l d u = 0")
    case True
    then show ?thesis using assms by (simp add: expand_def explore_def)
  next
    case False
    then have pos: "0 < weight r l d u" using weight_nonneg [of r l d u] by simp
    obtain dir where dir: "choose_dir (fst (random_int (weight r l d u) (rng_state st))) r l d u = Some dir"
      using random_int_range [OF pos, of "rng_state st"] choose_dir_some by blast
    show ?thesis
      using assms False dir move_not_unexpected [of g "maze_of st" "pos_x p" "pos_y p" dir]
        track_not_unexpected
      by (auto simp: expand_def explore_def split: sum.splits option.splits prod.splits)
  qed
qed

subsection \<open>Putting the nodes back into the queue\<close>


lemma neg32_least: "neg32 (- 2147483648) = - 2147483648"
  by (simp add: neg32_def)


text \<open>
  With the least 32-bit value as complexity the negation gives the value back:
  no draw is below it, and both nodes go to the back.
\<close>

lemma requeue_least:
  assumes "0 \<le> v"
  shows "requeue (- 2147483648) v nx p q = q @ [nx, p]"
  using assms by (simp add: requeue_def neg32_least Let_def)

lemma requeue_set: "set (requeue c v nx p q) = {nx, p} \<union> set q"
  by (auto simp: requeue_def Let_def)

lemma requeue_length: "length (requeue c v nx p q) = length q + 2"
  by (simp add: requeue_def Let_def)





subsection \<open>The size check\<close>

text \<open>
  Claim C8, as the code has it. A call of \<^verbatim>\<open>makemaze\<close> whose grid has \<open>W = 2\<close>
  or \<open>H = 0\<close> ends in "Too small", and all it has added to the output of the
  run so far is its comment line: no point of this maze is printed. When this is
  the grid of the first maze of a part (the one inside if the part has a maze
  inside, the one outside otherwise), the part and with it the run ends in "Too
  small", and all the part has added to what the earlier parts have printed is
  its own comment line and that of the maze.
\<close>

theorem too_small_before_points:
  assumes "W g = 2 \<or> H g = 0"
  shows "makemaze g s prt = Some (Inl (TooSmall, prt @ [Comment])) \<and>
         (nubs (opts j) \<noteq> 0 \<and> (mazeinside j p \<or> mazeoutside j p) \<and>
          maze_params j p (mazeinside j p) = g \<longrightarrow>
            boxes j (p # ps) s prt = Some (Inl (TooSmall, prt @ [Comment, Comment])))"
proof (intro conjI impI)
  show "makemaze g s prt = Some (Inl (TooSmall, prt @ [Comment]))" for prt
    using assms by (auto simp: makemaze_def)
  then have m: "makemaze g s (prt @ [Comment]) = Some (Inl (TooSmall, prt @ [Comment, Comment]))"
    by simp
  assume h: "nubs (opts j) \<noteq> 0 \<and> (mazeinside j p \<or> mazeoutside j p) \<and>
             maze_params j p (mazeinside j p) = g"
  have "box j p s prt = Some (Inl (TooSmall, prt @ [Comment, Comment]))"
  proof (cases "mazeinside j p")
    case True
    then show ?thesis using h m by (simp add: box_def maze_call_def)
  next
    case False
    then show ?thesis using h m by (simp add: box_def maze_call_def)
  qed
  then show "boxes j (p # ps) s prt = Some (Inl (TooSmall, prt @ [Comment, Comment]))"
    by simp
qed

theorem too_small_before_points_witness:
  "(W (grid6\<lparr>W := 2\<rparr>) = 2 \<or> H (grid6\<lparr>W := 2\<rparr>) = 0) \<and>
   makemaze (grid6\<lparr>W := 2\<rparr>) 1 [Comment, Point 0] =
     Some (Inl (TooSmall, [Comment, Point 0, Comment])) \<and>
   (W (maze_params inside2 2 True) = 2 \<or> H (maze_params inside2 2 True) = 0) \<and>
   nubs (opts inside2) \<noteq> 0 \<and> mazeinside inside2 2 \<and>
   makemaze (maze_params inside2 2 True) 1 [] = Some (Inl (TooSmall, [Comment])) \<and>
   boxes inside2 [2] 1 (addnub [Comment]) =
     Some (Inl (TooSmall, addnub [Comment] @ [Comment, Comment]))"
proof -
  have a: "W (grid6\<lparr>W := 2\<rparr>) = 2 \<or> H (grid6\<lparr>W := 2\<rparr>) = 0" by simp
  have b: "W (maze_params inside2 2 True) = 2 \<or> H (maze_params inside2 2 True) = 0"
    by (simp add: maze_params_def inside2_def)
  have c: "nubs (opts inside2) \<noteq> 0" "mazeinside inside2 2"
    by (simp_all add: inside2_def mazeinside_def grid6_def)
  have "makemaze (grid6\<lparr>W := 2\<rparr>) 1 [Comment, Point 0] =
          Some (Inl (TooSmall, [Comment, Point 0, Comment]))"
    using too_small_before_points [OF a, of 1 "[Comment, Point 0]"] by simp
  moreover have "makemaze (maze_params inside2 2 True) 1 [] = Some (Inl (TooSmall, [Comment]))"
    using too_small_before_points [OF b, of 1 "[]"] by simp
  moreover have "boxes inside2 [2] 1 (addnub [Comment]) =
     Some (Inl (TooSmall, addnub [Comment] @ [Comment, Comment]))"
    using too_small_before_points [OF b, of 1 "addnub [Comment]" inside2 2 "[]"] c by simp
  ultimately show ?thesis using a b c by blast
qed

text \<open>
  The run as a whole may have printed points by then. With the mazes inside
  (\<^verbatim>\<open>-i\<close>) and two parts, part 1 carries no maze and prints the 32 points of
  its nubs; the only maze of the run is the one inside part 2, and when its grid
  has \<open>H = 0\<close> the run ends in "Too small" after those points.
\<close>

theorem too_small_after_points_counterexample:
  "H (maze_params inside2 2 True) = 0 \<and>
   \<not> mazeinside inside2 1 \<and> \<not> mazeoutside inside2 1 \<and> mazeinside inside2 2 \<and>
   run inside2 1 = Some (Inl (TooSmall, addnub [Comment] @ [Comment, Comment])) \<and>
   take 33 (addnub [Comment]) = Comment # map Point [0..31]"
  by code_simp

subsection \<open>Advancing a slice to where it is\<close>

text \<open>
  Claim C10. For a slice \<open>S\<close> of the grid whose left boundary has been set,
  \<^verbatim>\<open>slice\<close> with the stored left and right boundaries as targets prints
  nothing and changes nothing: the whole mesh state, output included, is the one
  before the call.
\<close>

theorem slice_same_targets:
  assumes "0 \<le> S" and "S < W g * 4" and "sl (slices ms S) \<noteq> 0"
  shows "slice g bottom S (sl (slices ms S)) (sr (slices ms S)) ms = Inr ms"
  using assms by (simp add: slice_def Let_def)

theorem slice_same_targets_witness:
  "(0::int) \<le> 3 \<and> 3 < W grid6 * 4 \<and> sl (slices mesh6 3) \<noteq> 0 \<and>
   slice grid6 0 3 51 (- 28) mesh6 = Inr mesh6"
  using slice_same_targets [of 3 grid6 mesh6 0] by (simp add: grid6_simps mesh6_def)

subsection \<open>The test pattern\<close>

lemma or_list_and: "or_list xs AND c = or_list (map (\<lambda>a. a AND c) xs)"
  by (induction xs) (simp_all add: bit.conj_disj_distrib2)

lemma valid_cell_eq:
  assumes "0 < W g" and "0 < nubs g"
  shows "valid_cell g m x y \<longleftrightarrow>
         or_list (map (\<lambda>a. a AND FLAGI) (group_cells g m x y (nat (nubs g)))) = 0"
  by (simp add: valid_cell_def test_eq [OF assms] or_list_and)

lemma cellval_flagi:
  assumes "\<And>x y. m' x y AND FLAGI = m x y AND FLAGI"
  shows "cellval g m' x y AND FLAGI = cellval g m x y AND FLAGI"
  using assms by (simp add: cellval_def)

lemma valid_cell_cong:
  assumes "0 < W g" and "0 < nubs g"
    and "\<And>x y. m' x y AND FLAGI = m x y AND FLAGI"
  shows "valid_cell g m' x y = valid_cell g m x y"
  unfolding valid_cell_eq [OF assms(1,2)] group_cells_def
  by (simp add: comp_def cellval_flagi [of m' m, OF assms(3)])

lemma or_list_zero: "or_list xs = 0 \<longleftrightarrow> (\<forall>a\<in>set xs. a = 0)"
  by (induction xs) (simp_all add: or_eq_0_iff)

lemma valid_cell_row:
  assumes w: "0 < W g" and n: "0 < nubs g" and v: "valid_cell g m x y"
  shows "0 \<le> y + helix g * (x div W g) \<and> y + helix g * (x div W g) < H g"
proof -
  have "0 < nat (nubs g)" using n by simp
  then have "(0::nat) \<in> set [0..<nat (nubs g)]" by simp
  then have "(\<lambda>k. cellval g m (copy_x g x (int k)) (copy_y g x y (int k))) 0
               \<in> set (group_cells g m x y (nat (nubs g)))"
    unfolding group_cells_def set_map by (rule imageI)
  then have "cellval g m (copy_x g x 0) (copy_y g x y 0) \<in> set (group_cells g m x y (nat (nubs g)))"
    by simp
  then have "cellval g m (copy_x g x 0) (copy_y g x y 0) AND FLAGI = 0"
    using v unfolding valid_cell_eq [OF w n] or_list_zero by simp
  then show ?thesis
    by (auto simp: cellval_def copy_y_def flag_defs split: if_splits)
qed

lemma valid_cell_shift:
  assumes w: "0 < W g" and n: "0 < nubs g"
  shows "valid_cell g m (x + W g) y = valid_cell g m x (y + helix g)"
proof -
  have "copy_x g (x + W g) k = copy_x g x k" for k
    using mod_add_self2 [of "x + k * (W g sdiv nubs g)" "W g"]
    by (simp add: copy_x_def algebra_simps)
  moreover have "copy_y g (x + W g) y k = copy_y g x (y + helix g) k" for k
  proof -
    have "(x + W g + k * (W g sdiv nubs g)) div W g = (x + k * (W g sdiv nubs g)) div W g + 1"
      using w div_add_self2 [of "W g" "x + k * (W g sdiv nubs g)"] by (simp add: algebra_simps)
    then show ?thesis by (simp add: copy_y_def algebra_simps)
  qed
  ultimately have "group_cells g m (x + W g) y (nat (nubs g)) =
                   group_cells g m x (y + helix g) (nat (nubs g))"
    by (simp add: group_cells_def)
  then show ?thesis by (simp add: valid_cell_eq [OF w n])
qed

lemma left_right:
  assumes "0 < W g" and "0 \<le> X" and "X < W g"
  shows "(x, y) = right_of g (X, Y) \<longleftrightarrow> 0 \<le> x \<and> x < W g \<and> left_of g (x, y) = (X, Y)"
  using assms by (auto simp: right_of_def left_of_def split: if_splits)

lemma maze_ors_two:
  assumes "0 \<le> x1" "x1 < W g" "0 \<le> y1" "y1 < H g" "0 \<le> x2" "x2 < W g" "0 \<le> y2" "y2 < H g"
  shows "\<exists>m'. maze_ors g m [(x1, y1, f1), (x2, y2, f2)] = Inr m' \<and>
           (\<forall>x y. m' x y = m x y OR (if x = x1 \<and> y = y1 then f1 else 0)
                                 OR (if x = x2 \<and> y = y2 then f2 else 0))"
proof -
  have "maze_ors g m [(x1, y1, f1), (x2, y2, f2)] =
          Inr ((m(x1 := (m x1)(y1 := m x1 y1 OR f1)))
                 (x2 := ((m(x1 := (m x1)(y1 := m x1 y1 OR f1))) x2)
                    (y2 := (m(x1 := (m x1)(y1 := m x1 y1 OR f1))) x2 y2 OR f2)))"
    using assms by (simp add: maze_or_def)
  moreover have "\<forall>x y. ((m(x1 := (m x1)(y1 := m x1 y1 OR f1)))
                 (x2 := ((m(x1 := (m x1)(y1 := m x1 y1 OR f1))) x2)
                    (y2 := (m(x1 := (m x1)(y1 := m x1 y1 OR f1))) x2 y2 OR f2))) x y =
            m x y OR (if x = x1 \<and> y = y1 then f1 else 0) OR (if x = x2 \<and> y = y2 then f2 else 0)"
    by (simp add: fun_upd_def or.assoc)
  ultimately show ?thesis by blast
qed

lemma opened_skip:
  assumes "\<not> valid_pair g m X Y"
  shows "opened g m ((X, Y) # cs) = opened g m cs"
proof (intro ext)
  fix x y
  have "((x, y) \<in> set ((X, Y) # cs) \<and> valid_pair g m x y) =
        ((x, y) \<in> set cs \<and> valid_pair g m x y)"
    using assms by auto
  moreover have
    "(left_of g (x, y) \<in> set ((X, Y) # cs) \<and>
        valid_pair g m (fst (left_of g (x, y))) (snd (left_of g (x, y)))) =
     (left_of g (x, y) \<in> set cs \<and>
        valid_pair g m (fst (left_of g (x, y))) (snd (left_of g (x, y))))"
    using assms by (cases "left_of g (x, y)") auto
  ultimately show "opened g m ((X, Y) # cs) x y = opened g m cs x y"
    unfolding opened_def by simp
qed

lemma opened_step:
  assumes w: "0 < W g" and n: "0 < nubs g" and X: "0 \<le> X" "X < W g"
    and vp: "valid_pair g m X Y"
    and m': "\<And>x y. m' x y = m x y OR (if x = X \<and> y = Y then FLAGR else 0)
                              OR (if (x, y) = right_of g (X, Y) then FLAGL else 0)"
  shows "opened g m' cs = opened g m ((X, Y) # cs)"
proof (intro ext)
  fix x y
  have fl: "\<And>x y. m' x y AND FLAGI = m x y AND FLAGI"
    unfolding m' by (simp add: bit.conj_disj_distrib2 flag_defs)
  have vc: "\<And>x y. valid_cell g m' x y = valid_cell g m x y"
    by (rule valid_cell_cong [OF w n fl])
  have vpe: "\<And>x y. valid_pair g m' x y = valid_pair g m x y"
    by (simp add: valid_pair_def vc)
  have lr: "(x, y) = right_of g (X, Y) \<longleftrightarrow> 0 \<le> x \<and> x < W g \<and> left_of g (x, y) = (X, Y)"
    by (rule left_right [OF w X])
  show "opened g m' cs x y = opened g m ((X, Y) # cs) x y"
  proof (cases "x = X \<and> y = Y")
    case True
    then have a: "valid_pair g m x y" using vp by simp
    show ?thesis
    proof (cases "(x, y) = right_of g (X, Y)")
      case True
      then have b: "0 \<le> x \<and> x < W g \<and> left_of g (x, y) = (X, Y)" using lr by simp
      then have c: "valid_pair g m (fst (left_of g (x, y))) (snd (left_of g (x, y)))"
        using vp by simp
      from True \<open>x = X \<and> y = Y\<close> a b c show ?thesis
        unfolding opened_def vpe m' by (simp add: ac_simps)
    next
      case False
      then have b: "\<not> (0 \<le> x \<and> x < W g \<and> left_of g (x, y) = (X, Y))" using lr by simp
      from False \<open>x = X \<and> y = Y\<close> a b show ?thesis
        unfolding opened_def vpe m' by (auto simp: ac_simps)
    qed
  next
    case nx: False
    show ?thesis
    proof (cases "(x, y) = right_of g (X, Y)")
      case True
      then have b: "0 \<le> x \<and> x < W g \<and> left_of g (x, y) = (X, Y)" using lr by simp
      then have c: "valid_pair g m (fst (left_of g (x, y))) (snd (left_of g (x, y)))"
        using vp by simp
      from True nx b c show ?thesis
        unfolding opened_def vpe m' by (auto simp: ac_simps)
    next
      case False
      then have b: "\<not> (0 \<le> x \<and> x < W g \<and> left_of g (x, y) = (X, Y))" using lr by simp
      from False nx b show ?thesis
        unfolding opened_def vpe m' by (auto simp: ac_simps)
    qed
  qed
qed

lemma testmaze_cells_opened:
  assumes w: "0 < W g" and n: "0 < nubs g"
  shows "\<forall>c\<in>set cs. 0 \<le> fst c \<and> fst c < W g \<Longrightarrow>
         testmaze_cells g m cs = Some (Inr (opened g m cs))"
proof (induction cs arbitrary: m)
  case Nil
  have "opened g m [] = m" by (intro ext) (simp add: opened_def)
  then show ?case by simp
next
  case (Cons c cs)
  obtain X Y where c: "c = (X, Y)" by (cases c)
  have X: "0 \<le> X" "X < W g" using Cons.prems c by simp_all
  have rest: "\<forall>c\<in>set cs. 0 \<le> fst c \<and> fst c < W g" using Cons.prems by simp
  obtain a where a: "test g m X Y = Some a" using test_eq [OF w n] by simp
  obtain b where b: "test g m (X + 1) Y = Some b" using test_eq [OF w n] by simp
  have va: "valid_cell g m X Y \<longleftrightarrow> a AND FLAGI = 0" by (simp add: valid_cell_def a)
  have vb: "valid_cell g m (X + 1) Y \<longleftrightarrow> b AND FLAGI = 0" by (simp add: valid_cell_def b)
  show ?case
  proof (cases "valid_pair g m X Y")
    case False
    then have "testmaze_cells g m (c # cs) = testmaze_cells g m cs"
      using va vb by (auto simp: c a b valid_pair_def)
    then show ?thesis
      using Cons.IH [OF rest, of m] opened_skip [OF False, of cs] by (simp add: c)
  next
    case True
    then have av: "a AND FLAGI = 0" and bv: "b AND FLAGI = 0"
      using va vb by (simp_all add: valid_pair_def)
    have x0: "X div W g = 0" using X by simp
    have Y: "0 \<le> Y" "Y < H g"
      using valid_cell_row [OF w n, of m X Y] True x0 by (simp_all add: valid_pair_def)
    have x1: "(X + 1) div W g = (if X + 1 \<ge> W g then 1 else 0)"
    proof (cases "X + 1 \<ge> W g")
      case True
      then have "X + 1 = W g" using X by simp
      then show ?thesis using w by simp
    next
      case False
      then show ?thesis using X by simp
    qed
    have r: "0 \<le> fst (right_of g (X, Y))" "fst (right_of g (X, Y)) < W g"
      "0 \<le> snd (right_of g (X, Y))" "snd (right_of g (X, Y)) < H g"
      using valid_cell_row [OF w n, of m "X + 1" Y] True x1 X w
      by (auto simp: valid_pair_def right_of_def)
    obtain m' where m': "maze_ors g m [(X, Y, FLAGR),
          (fst (right_of g (X, Y)), snd (right_of g (X, Y)), FLAGL)] = Inr m'"
      and m'eq: "\<And>x y. m' x y = m x y OR (if x = X \<and> y = Y then FLAGR else 0)
                 OR (if x = fst (right_of g (X, Y)) \<and> y = snd (right_of g (X, Y)) then FLAGL else 0)"
      using maze_ors_two [OF X Y r, of m FLAGR FLAGL] by blast
    have m'eq2: "\<And>x y. m' x y = m x y OR (if x = X \<and> y = Y then FLAGR else 0)
                 OR (if (x, y) = right_of g (X, Y) then FLAGL else 0)"
      unfolding m'eq by (simp add: prod_eq_iff)
    have "testmaze_cells g m (c # cs) = testmaze_cells g m' cs"
    proof (cases "X + 1 \<ge> W g")
      case True
      then have "right_of g (X, Y) = (X + 1 - W g, Y + helix g)" by (simp add: right_of_def)
      then have "maze_ors g m [(X, Y, FLAGR), (X + 1 - W g, Y + helix g, FLAGL)] = Inr m'"
        using m' by simp
      then show ?thesis using av bv True by (simp add: c a b)
    next
      case False
      then have "right_of g (X, Y) = (X + 1, Y)" by (simp add: right_of_def)
      then have "maze_ors g m [(X, Y, FLAGR), (X + 1, Y, FLAGL)] = Inr m'"
        using m' by simp
      then show ?thesis using av bv False by (simp add: c a b)
    qed
    then show ?thesis
      using Cons.IH [OF rest, of m'] opened_step [OF w n X True m'eq2, of cs] by (simp add: c)
  qed
qed

lemma set_cells: "set (cells g) = {(x, y). 0 \<le> x \<and> x < W g \<and> 0 \<le> y \<and> y < H g}"
  by (auto simp: cells_def)

lemma testmaze_maxx_some:
  "0 < W g \<Longrightarrow> 0 < nubs g \<Longrightarrow> \<exists>r. testmaze_maxx g m mx = Some r"
proof (induction g m mx rule: testmaze_maxx.induct)
  case (1 g m mx)
  obtain a where a: "test g m (mx + 1) (H g - 2) = Some a"
    using test_eq [OF "1.prems"] by simp
  show ?case
  proof (cases "mx + 1 < W g \<and> a AND FLAGI = 0")
    case True
    then obtain r where "testmaze_maxx g m (mx + 1) = Some r"
      using "1.IH" [of a] a "1.prems" by blast
    then show ?thesis
      using True a by (subst testmaze_maxx.simps) simp
  next
    case False
    then show ?thesis
      using a by (subst testmaze_maxx.simps) auto
  qed
qed

lemma opened_cells:
  assumes w: "0 < W g" and n: "0 < nubs g"
  shows "opened g m (cells g) = test_pattern g m"
proof (intro ext)
  fix x y
  have row: "valid_cell g m x' y' \<Longrightarrow> 0 \<le> x' \<Longrightarrow> x' < W g \<Longrightarrow> 0 \<le> y' \<and> y' < H g" for x' y'
    using valid_cell_row [OF w n, of m x' y'] by simp
  have lft: "valid_pair g m (fst (left_of g (x, y))) (snd (left_of g (x, y))) \<longleftrightarrow>
             valid_cell g m (x - 1) y \<and> valid_cell g m x y" if "0 \<le> x" "x < W g"
  proof (cases "x - 1 < 0")
    case True
    then have x0: "x = 0" using that by simp
    have "valid_cell g m (- 1 + W g) (y - helix g) = valid_cell g m (- 1) y"
      using valid_cell_shift [OF w n, of m "- 1" "y - helix g"] by simp
    moreover have "valid_cell g m (0 + W g) (y - helix g) = valid_cell g m 0 y"
      using valid_cell_shift [OF w n, of m 0 "y - helix g"] by simp
    ultimately show ?thesis
      using x0 by (simp add: valid_pair_def left_of_def algebra_simps)
  next
    case False
    then show ?thesis by (simp add: valid_pair_def left_of_def)
  qed
  have lin: "left_of g (x, y) \<in> set (cells g)"
    if "0 \<le> x" "x < W g" "valid_pair g m (fst (left_of g (x, y))) (snd (left_of g (x, y)))"
  proof -
    have fx: "0 \<le> fst (left_of g (x, y)) \<and> fst (left_of g (x, y)) < W g"
      using that(1,2) w by (auto simp: left_of_def)
    then have "0 \<le> snd (left_of g (x, y)) \<and> snd (left_of g (x, y)) < H g"
      using row [of "fst (left_of g (x, y))" "snd (left_of g (x, y))"] that(3)
      by (simp add: valid_pair_def)
    then show ?thesis using fx by (cases "left_of g (x, y)") (simp add: set_cells)
  qed
  show "opened g m (cells g) x y = test_pattern g m x y"
  proof (cases "0 \<le> x \<and> x < W g")
    case False
    then show ?thesis by (auto simp: opened_def test_pattern_def set_cells)
  next
    case xr: True
    show ?thesis
    proof (cases "0 \<le> y \<and> y < H g")
      case True
      then show ?thesis
        using xr lft lin
        by (auto simp: opened_def test_pattern_def set_cells valid_pair_def)
    next
      case False
      then have "\<not> valid_cell g m x y" using row [of x y] xr by blast
      then show ?thesis
        using xr False lft by (auto simp: opened_def test_pattern_def set_cells)
    qed
  qed
qed

text \<open>
  Claim C9. On a grid with \<open>W > 0\<close> and \<open>nubs > 0\<close> the test pattern returns
  the maze \<open>test_pattern g m\<close>: for every pair of horizontally adjacent cells
  that are both valid, \<open>FLAGR\<close> is added to the left cell and \<open>FLAGL\<close> to the
  right cell (wrapped round the seam); every other byte of the maze keeps its
  value.
\<close>

theorem testmaze_opens_right_edges:
  assumes "0 < W g" and "0 < nubs g"
  shows "\<exists>mx. testmaze_mode g m = Some (Inr (test_pattern g m, mx))"
proof -
  have "\<forall>c\<in>set (cells g). 0 \<le> fst c \<and> fst c < W g" by (auto simp: set_cells)
  then have "testmaze_cells g m (cells g) = Some (Inr (test_pattern g m))"
    using testmaze_cells_opened [OF assms, of "cells g" m] opened_cells [OF assms, of m] by simp
  then show ?thesis
    using testmaze_maxx_some [OF assms, of "test_pattern g m" 0]
    by (auto simp: testmaze_mode_def)
qed

theorem testmaze_opens_right_edges_witness:
  "0 < W grid6 \<and> 0 < nubs grid6 \<and>
   (\<exists>m' mx. testmaze_mode grid6 park6 = Some (Inr (m', mx)) \<and>
      map (\<lambda>x. m' x 1) [0, 1, 2, 3, 4, 5] =
        [FLAGR OR FLAGL, FLAGL OR FLAGR, FLAGR OR FLAGL, FLAGR OR FLAGL, FLAGR OR FLAGL,
         FLAGR OR FLAGL] \<and>
      map (\<lambda>x. m' x 0) [0, 1, 2, 3, 4, 5] = [FLAGI, FLAGI, FLAGI, FLAGI, FLAGI, FLAGI])"
proof -
  have w: "0 < W grid6" and n: "0 < nubs grid6" by (simp_all add: grid6_def)
  obtain mx where mx: "testmaze_mode grid6 park6 = Some (Inr (test_pattern grid6 park6, mx))"
    using testmaze_opens_right_edges [OF w n, of park6] by blast
  have a: "map (\<lambda>x. test_pattern grid6 park6 x 1) [0, 1, 2, 3, 4, 5] =
        [FLAGR OR FLAGL, FLAGL OR FLAGR, FLAGR OR FLAGL, FLAGR OR FLAGL, FLAGR OR FLAGL,
         FLAGR OR FLAGL]"
    by code_simp
  have b: "map (\<lambda>x. test_pattern grid6 park6 x 0) [0, 1, 2, 3, 4, 5] =
             [FLAGI, FLAGI, FLAGI, FLAGI, FLAGI, FLAGI]"
    by code_simp
  show ?thesis
    by (intro conjI exI [of _ "test_pattern grid6 park6"] exI [of _ mx]) (rule w n mx a b)+
qed

subsection \<open>One expansion of the frontier\<close>

lemma test_zero_cell:
  assumes w: "0 < W g" and n: "0 < nubs g" and t: "test g m x y = Some 0"
  shows "in_grid g (x mod W g) (y + helix g * (x div W g)) \<and>
         m (x mod W g) (y + helix g * (x div W g)) = 0"
proof -
  have "0 < nat (nubs g)" using n by simp
  then have "(0::nat) \<in> set [0..<nat (nubs g)]" by simp
  then have "(\<lambda>k. cellval g m (copy_x g x (int k)) (copy_y g x y (int k))) 0
               \<in> set (group_cells g m x y (nat (nubs g)))"
    unfolding group_cells_def set_map by (rule imageI)
  then have "cellval g m (copy_x g x 0) (copy_y g x y 0) \<in> set (group_cells g m x y (nat (nubs g)))"
    by simp
  moreover have "or_list (group_cells g m x y (nat (nubs g))) = 0"
    using t unfolding test_eq [OF w n] by simp
  ultimately have "cellval g m (copy_x g x 0) (copy_y g x y 0) = 0"
    unfolding or_list_zero by simp
  then show ?thesis
    using w by (auto simp: cellval_def copy_x_def copy_y_def in_grid_def flag_defs split: if_splits)
qed

lemma neighbour_wrap:
  assumes w: "0 < W g" and x: "0 \<le> X" "X < W g"
  shows "neighbour g (X, Y) Right = ((X + 1) mod W g, Y + helix g * ((X + 1) div W g))"
    and "neighbour g (X, Y) Left = ((X - 1) mod W g, Y + helix g * ((X - 1) div W g))"
    and "neighbour g (X, Y) Down = (X mod W g, Y - 1 + helix g * (X div W g))"
    and "neighbour g (X, Y) Up = (X mod W g, Y + 1 + helix g * (X div W g))"
proof -
  show "neighbour g (X, Y) Right = ((X + 1) mod W g, Y + helix g * ((X + 1) div W g))"
  proof (cases "X + 1 \<ge> W g")
    case True
    then have e: "X + 1 = W g" using x by simp
    show ?thesis using w by (simp add: neighbour_def right_of_def e)
  next
    case False
    then have "(X + 1) mod W g = X + 1" "(X + 1) div W g = 0" using x by simp_all
    then show ?thesis using False by (simp add: neighbour_def right_of_def)
  qed
  show "neighbour g (X, Y) Left = ((X - 1) mod W g, Y + helix g * ((X - 1) div W g))"
  proof (cases "X - 1 < 0")
    case True
    then have e: "X = 0" using x by simp
    have rng: "0 \<le> - 1 + W g" "- 1 + W g < W g" using w by simp_all
    have "(- 1 + W g) mod W g = - 1 + W g" using rng by (rule mod_pos_pos_trivial)
    then have m1: "(- 1) mod W g = W g - 1" by simp
    have "(- 1 + W g) div W g = 0" using rng by (rule div_pos_pos_trivial)
    moreover have "(- 1 + W g) div W g = (- 1) div W g + 1"
      using w div_add_self2 [of "W g" "- 1"] by simp
    ultimately have d1: "(- 1) div W g = - 1" by simp
    show ?thesis unfolding e by (simp add: neighbour_def left_of_def m1 d1)
  next
    case False
    then have "(X - 1) mod W g = X - 1" "(X - 1) div W g = 0" using x by simp_all
    then show ?thesis using False by (simp add: neighbour_def left_of_def)
  qed
  have "X mod W g = X" "X div W g = 0" using x by simp_all
  then show "neighbour g (X, Y) Down = (X mod W g, Y - 1 + helix g * (X div W g))"
    and "neighbour g (X, Y) Up = (X mod W g, Y + 1 + helix g * (X div W g))"
    by (simp_all add: neighbour_def)
qed

text \<open>The query made for a direction.\<close>

lemma query_neighbour:
  assumes w: "0 < W g" and n: "0 < nubs g" and c: "in_grid g X Y"
    and t: "test g m (X + dx) (Y + dy) = Some 0"
    and d: "(dir, dx, dy) \<in> {(Right, 1, 0), (Left, - 1, 0), (Down, 0, - 1), (Up, 0, 1)}"
  shows "in_grid g (fst (neighbour g (X, Y) dir)) (snd (neighbour g (X, Y) dir)) \<and>
         m (fst (neighbour g (X, Y) dir)) (snd (neighbour g (X, Y) dir)) = 0"
proof -
  have x: "0 \<le> X" "X < W g" using c by (simp_all add: in_grid_def)
  have "neighbour g (X, Y) dir = ((X + dx) mod W g, Y + dy + helix g * ((X + dx) div W g))"
    using d neighbour_wrap [OF w x, of Y] by auto
  then show ?thesis using test_zero_cell [OF w n t] by simp
qed

lemma move_open:
  assumes c: "in_grid g X Y"
    and nb: "in_grid g (fst (neighbour g (X, Y) dir)) (snd (neighbour g (X, Y) dir))"
  shows "move g m X Y dir =
           Inr (open_edge g m (X, Y) dir, fst (neighbour g (X, Y) dir), snd (neighbour g (X, Y) dir))"
proof -
  obtain x1 y1 where n1: "neighbour g (X, Y) dir = (x1, y1)" by (cases "neighbour g (X, Y) dir")
  have r: "0 \<le> X" "X < W g" "0 \<le> Y" "Y < H g" "0 \<le> x1" "x1 < W g" "0 \<le> y1" "y1 < H g"
    using c nb by (simp_all add: in_grid_def n1)
  from maze_ors_two [OF r, of m "flag_of dir" "back_of dir"]
  obtain m' where m': "maze_ors g m [(X, Y, flag_of dir), (x1, y1, back_of dir)] = Inr m'"
    and v: "\<forall>x y. m' x y = m x y OR (if x = X \<and> y = Y then flag_of dir else 0)
                                 OR (if x = x1 \<and> y = y1 then back_of dir else 0)"
    by blast
  have e: "m' = open_edge g m (X, Y) dir"
    by (intro ext) (simp add: v open_edge_def n1)
  show ?thesis
  proof (cases dir)
    case Right
    then have "x1 = (if X + 1 \<ge> W g then X + 1 - W g else X + 1)"
      "y1 = (if X + 1 \<ge> W g then Y + helix g else Y)"
      using n1 by (auto simp: neighbour_def right_of_def split: if_splits)
    then show ?thesis using m' e Right n1
      by (simp add: move_def flag_of_def back_of_def Let_def)
  next
    case Left
    then have "x1 = (if X - 1 < 0 then X - 1 + W g else X - 1)"
      "y1 = (if X - 1 < 0 then Y - helix g else Y)"
      using n1 by (auto simp: neighbour_def left_of_def split: if_splits)
    then show ?thesis using m' e Left n1
      by (simp add: move_def flag_of_def back_of_def Let_def)
  next
    case Down
    then have "x1 = X" "y1 = Y - 1" using n1 by (simp_all add: neighbour_def)
    then show ?thesis using m' e Down n1
      by (simp add: move_def flag_of_def back_of_def)
  next
    case Up
    then have "x1 = X" "y1 = Y + 1" using n1 by (simp_all add: neighbour_def)
    then show ?thesis using m' e Up n1
      by (simp add: move_def flag_of_def back_of_def)
  qed
qed


lemma entry_column_ok:
  assumes "0 < nubs g" and "nubs g \<le> W g"
  shows "\<exists>ok. entry_column g X = Inr ok"
proof -
  have "0 < W g" using assms by simp
  then have "W g sdiv nubs g = W g div nubs g" using assms by (simp add: sdiv_pos_nonneg)
  moreover have "0 < W g div nubs g" using assms by (simp add: pos_imp_zdiv_pos_iff)
  ultimately show ?thesis using assms by (auto simp: entry_column_def)
qed

lemma track_entry_ok:
  assumes "0 < W g" and "0 < nubs g" and "nubs g \<le> W g"
  shows "\<exists>mx' mxx'. track_entry g m pn X Y mx mxx = Some (Inr (mx', mxx'))"
proof -
  obtain ok where "entry_column g X = Inr ok" using entry_column_ok [OF assms(2,3)] by blast
  then show ?thesis by (simp add: track_entry_def test_eq [OF assms(1,2)])
qed

lemma dir_open_query:
  assumes "dir_open dir r l d u"
    and "test g m (X + 1) Y = Some r" and "test g m (X - 1) Y = Some l"
    and "test g m X (Y - 1) = Some d" and "test g m X (Y + 1) = Some u"
  shows "\<exists>dx dy. test g m (X + dx) (Y + dy) = Some 0 \<and>
           (dir, dx, dy) \<in> {(Right, 1, 0), (Left, - 1, 0), (Down, 0, - 1), (Up, 0, 1)}"
proof (cases dir)
  case Right
  then have "test g m (X + 1) (Y + 0) = Some 0" using assms by (simp add: dir_open_def)
  then show ?thesis using Right by blast
next
  case Left
  then have "test g m (X + - 1) (Y + 0) = Some 0" using assms by (simp add: dir_open_def)
  then show ?thesis using Left by blast
next
  case Down
  then have "test g m (X + 0) (Y + - 1) = Some 0" using assms by (simp add: dir_open_def)
  then show ?thesis using Down by blast
next
  case Up
  then have "test g m (X + 0) (Y + 1) = Some 0" using assms by (simp add: dir_open_def)
  then show ?thesis using Up by blast
qed

lemma expand_open:
  assumes w: "0 < W g" and n: "0 < nubs g" and nw: "nubs g \<le> W g"
    and c: "in_grid g (pos_x p) (pos_y p)"
    and r: "test g (maze_of st) (pos_x p + 1) (pos_y p) = Some r"
    and l: "test g (maze_of st) (pos_x p - 1) (pos_y p) = Some l"
    and d: "test g (maze_of st) (pos_x p) (pos_y p - 1) = Some d"
    and u: "test g (maze_of st) (pos_x p) (pos_y p + 1) = Some u"
    and pos: "0 < weight r l d u"
  shows "\<exists>dir mx mxx.
           choose_dir (fst (random_int (weight r l d u) (rng_state st))) r l d u = Some dir \<and>
           dir_open dir r l d u \<and>
           in_grid g (fst (neighbour g (pos_x p, pos_y p) dir))
             (snd (neighbour g (pos_x p, pos_y p) dir)) \<and>
           maze_of st (fst (neighbour g (pos_x p, pos_y p) dir))
             (snd (neighbour g (pos_x p, pos_y p) dir)) = 0 \<and>
           explore g (maze_of st) p (rng_state st) =
             Some (Inr (Some (open_edge g (maze_of st) (pos_x p, pos_y p) dir,
               fst (neighbour g (pos_x p, pos_y p) dir), snd (neighbour g (pos_x p, pos_y p) dir),
               snd (random_int (weight r l d u) (rng_state st))))) \<and>
           expand g st p ps =
             Some (Inr \<lparr>maze_of = open_edge g (maze_of st) (pos_x p, pos_y p) dir,
               queue = requeue (mazecomplexity g)
                 (fst (random_int 10 (snd (random_int (weight r l d u) (rng_state st)))))
                 (Pos (fst (neighbour g (pos_x p, pos_y p) dir))
                    (snd (neighbour g (pos_x p, pos_y p) dir)) (pos_n p + 1)) p ps,
               maxn = mx, maxx = mxx,
               rng_state = snd (random_int 10 (snd (random_int (weight r l d u) (rng_state st))))\<rparr>)"
proof -
  let ?v = "fst (random_int (weight r l d u) (rng_state st))"
  let ?s1 = "snd (random_int (weight r l d u) (rng_state st))"
  obtain dir where dir: "choose_dir ?v r l d u = Some dir" and op: "dir_open dir r l d u"
    using random_int_range [OF pos, of "rng_state st"] choose_dir_some by blast
  let ?nx = "fst (neighbour g (pos_x p, pos_y p) dir)"
  let ?ny = "snd (neighbour g (pos_x p, pos_y p) dir)"
  let ?m' = "open_edge g (maze_of st) (pos_x p, pos_y p) dir"
  obtain dx dy where q: "test g (maze_of st) (pos_x p + dx) (pos_y p + dy) = Some 0"
    and dd: "(dir, dx, dy) \<in> {(Right, 1, 0), (Left, - 1, 0), (Down, 0, - 1), (Up, 0, 1)}"
    using dir_open_query [OF op r l d u] by blast
  have nb: "in_grid g ?nx ?ny" and z: "maze_of st ?nx ?ny = 0"
    using query_neighbour [OF w n c q dd] by simp_all
  have mv: "move g (maze_of st) (pos_x p) (pos_y p) dir = Inr (?m', ?nx, ?ny)"
    using c nb by (rule move_open)
  have ex: "explore g (maze_of st) p (rng_state st) = Some (Inr (Some (?m', ?nx, ?ny, ?s1)))"
    using pos by (simp add: explore_def r l d u dir mv case_prod_beta)
  obtain mx mxx where
    tr: "track_entry g ?m' (pos_n p) ?nx ?ny (maxn st) (maxx st) = Some (Inr (mx, mxx))"
    using track_entry_ok [OF w n nw] by blast
  have "expand g st p ps =
             Some (Inr \<lparr>maze_of = ?m',
               queue = requeue (mazecomplexity g) (fst (random_int 10 ?s1))
                 (Pos ?nx ?ny (pos_n p + 1)) p ps,
               maxn = mx, maxx = mxx, rng_state = snd (random_int 10 ?s1)\<rparr>)"
    by (simp add: expand_def ex tr case_prod_beta)
  then show ?thesis using dir op nb z ex by blast
qed

text \<open>
  Claim C5. Let the node taken from the queue be a cell of a grid with
  \<open>W > 0\<close> and \<open>0 < nubs \<le> W\<close>. The queries \<open>r\<close>, \<open>l\<close>, \<open>d\<close>, \<open>u\<close> of its four
  neighbours return. If no direction is open (the sum of the weights is 0) the
  node is dropped and nothing else changes, the maze included. If the sum is
  positive the draw selects a direction that is open, and the expansion takes
  it: it returns a state whose maze is the old one with the edge between the
  cell and its neighbour in that direction opened on both sides, and whose queue
  holds the neighbour, one deeper, and the node, besides the nodes it held. In no
  case does the expansion end in "Unexpected maze path".
\<close>

theorem expansion_selects_open_direction:
  assumes "0 < W g" and "0 < nubs g" and "nubs g \<le> W g"
    and "in_grid g (pos_x p) (pos_y p)"
  shows "\<exists>r l d u.
           test g (maze_of st) (pos_x p + 1) (pos_y p) = Some r \<and>
           test g (maze_of st) (pos_x p - 1) (pos_y p) = Some l \<and>
           test g (maze_of st) (pos_x p) (pos_y p - 1) = Some d \<and>
           test g (maze_of st) (pos_x p) (pos_y p + 1) = Some u \<and>
           (weight r l d u = 0 \<longrightarrow> expand g st p ps = Some (Inr (st\<lparr>queue := ps\<rparr>))) \<and>
           (0 < weight r l d u \<longrightarrow>
              (\<exists>dir st'.
                 choose_dir (fst (random_int (weight r l d u) (rng_state st))) r l d u
                   = Some dir \<and>
                 dir_open dir r l d u \<and>
                 expand g st p ps = Some (Inr st') \<and>
                 maze_of st' = open_edge g (maze_of st) (pos_x p, pos_y p) dir \<and>
                 set (queue st') =
                   {Pos (fst (neighbour g (pos_x p, pos_y p) dir))
                      (snd (neighbour g (pos_x p, pos_y p) dir)) (pos_n p + 1), p} \<union> set ps)) \<and>
           expand g st p ps \<noteq> Some (Inl UnexpectedMazePath)"
proof -
  obtain r where r: "test g (maze_of st) (pos_x p + 1) (pos_y p) = Some r"
    using test_eq [OF assms(1,2)] by simp
  obtain l where l: "test g (maze_of st) (pos_x p - 1) (pos_y p) = Some l"
    using test_eq [OF assms(1,2)] by simp
  obtain d where d: "test g (maze_of st) (pos_x p) (pos_y p - 1) = Some d"
    using test_eq [OF assms(1,2)] by simp
  obtain u where u: "test g (maze_of st) (pos_x p) (pos_y p + 1) = Some u"
    using test_eq [OF assms(1,2)] by simp
  have a: "weight r l d u = 0 \<longrightarrow> expand g st p ps = Some (Inr (st\<lparr>queue := ps\<rparr>))"
    and c: "expand g st p ps \<noteq> Some (Inl UnexpectedMazePath)"
    using expansion_by_queries [OF r l d u, of ps] by simp_all
  have b: "0 < weight r l d u \<longrightarrow>
              (\<exists>dir st'.
                 choose_dir (fst (random_int (weight r l d u) (rng_state st))) r l d u
                   = Some dir \<and>
                 dir_open dir r l d u \<and>
                 expand g st p ps = Some (Inr st') \<and>
                 maze_of st' = open_edge g (maze_of st) (pos_x p, pos_y p) dir \<and>
                 set (queue st') =
                   {Pos (fst (neighbour g (pos_x p, pos_y p) dir))
                      (snd (neighbour g (pos_x p, pos_y p) dir)) (pos_n p + 1), p} \<union> set ps)"
  proof
    assume pos: "0 < weight r l d u"
    from expand_open [OF assms r l d u pos, of ps]
    obtain dir mx mxx where
      dir: "choose_dir (fst (random_int (weight r l d u) (rng_state st))) r l d u = Some dir"
      and op: "dir_open dir r l d u"
      and ex: "expand g st p ps =
             Some (Inr \<lparr>maze_of = open_edge g (maze_of st) (pos_x p, pos_y p) dir,
               queue = requeue (mazecomplexity g)
                 (fst (random_int 10 (snd (random_int (weight r l d u) (rng_state st)))))
                 (Pos (fst (neighbour g (pos_x p, pos_y p) dir))
                    (snd (neighbour g (pos_x p, pos_y p) dir)) (pos_n p + 1)) p ps,
               maxn = mx, maxx = mxx,
               rng_state = snd (random_int 10 (snd (random_int (weight r l d u) (rng_state st))))\<rparr>)"
      by blast
    show "\<exists>dir st'.
                 choose_dir (fst (random_int (weight r l d u) (rng_state st))) r l d u
                   = Some dir \<and>
                 dir_open dir r l d u \<and>
                 expand g st p ps = Some (Inr st') \<and>
                 maze_of st' = open_edge g (maze_of st) (pos_x p, pos_y p) dir \<and>
                 set (queue st') =
                   {Pos (fst (neighbour g (pos_x p, pos_y p) dir))
                      (snd (neighbour g (pos_x p, pos_y p) dir)) (pos_n p + 1), p} \<union> set ps"
      by (intro exI conjI, rule dir, rule op, rule ex) (simp_all add: requeue_set)
  qed
  show ?thesis using r l d u a b c by blast
qed

theorem expansion_selects_open_direction_witness:
  "0 < W grid6 \<and> 0 < nubs grid6 \<and> nubs grid6 \<le> W grid6 \<and>
   in_grid grid6 (pos_x (Pos 1 1 0)) (pos_y (Pos 1 1 0)) \<and>
   test grid6 (maze_of start6) (pos_x (Pos 1 1 0) + 1) (pos_y (Pos 1 1 0)) = Some 0 \<and>
   test grid6 (maze_of start6) (pos_x (Pos 1 1 0) - 1) (pos_y (Pos 1 1 0)) = Some FLAGR \<and>
   test grid6 (maze_of start6) (pos_x (Pos 1 1 0)) (pos_y (Pos 1 1 0) - 1) = Some FLAGI \<and>
   test grid6 (maze_of start6) (pos_x (Pos 1 1 0)) (pos_y (Pos 1 1 0) + 1) = Some FLAGI \<and>
   0 < weight 0 FLAGR FLAGI FLAGI \<and>
   choose_dir (fst (random_int (weight 0 FLAGR FLAGI FLAGI) (rng_state start6)))
     0 FLAGR FLAGI FLAGI = Some Right \<and>
   dir_open Right 0 FLAGR FLAGI FLAGI \<and>
   neighbour grid6 (1, 1) Right = (2, 1) \<and>
   (\<exists>st'. expand grid6 start6 (Pos 1 1 0) [] = Some (Inr st') \<and>
          maze_of st' = open_edge grid6 park6 (1, 1) Right \<and>
          maze_of st' 1 1 = FLAGL OR FLAGR \<and> maze_of st' 2 1 = FLAGL \<and>
          set (queue st') = {Pos 2 1 1, Pos 1 1 0}) \<and>
   expand grid6 start6 (Pos 1 1 0) [] \<noteq> Some (Inl UnexpectedMazePath) \<and>
   in_grid grid6 (pos_x (Pos 2 1 1)) (pos_y (Pos 2 1 1)) \<and>
   test grid6 (maze_of start6) (pos_x (Pos 2 1 1) + 1) (pos_y (Pos 2 1 1)) = Some FLAGR \<and>
   test grid6 (maze_of start6) (pos_x (Pos 2 1 1) - 1) (pos_y (Pos 2 1 1)) = Some FLAGL \<and>
   test grid6 (maze_of start6) (pos_x (Pos 2 1 1)) (pos_y (Pos 2 1 1) - 1) = Some FLAGI \<and>
   test grid6 (maze_of start6) (pos_x (Pos 2 1 1)) (pos_y (Pos 2 1 1) + 1) = Some FLAGI \<and>
   weight FLAGR FLAGL FLAGI FLAGI = 0 \<and>
   expand grid6 start6 (Pos 2 1 1) [] = Some (Inr (start6\<lparr>queue := []\<rparr>))"
proof -
  have g: "0 < W grid6" "0 < nubs grid6" "nubs grid6 \<le> W grid6" by (simp_all add: grid6_def)
  have c1: "in_grid grid6 (pos_x (Pos 1 1 0)) (pos_y (Pos 1 1 0))"
    and c2: "in_grid grid6 (pos_x (Pos 2 1 1)) (pos_y (Pos 2 1 1))"
    by (simp_all add: in_grid_def grid6_def)
  have a1: "test grid6 (maze_of start6) (pos_x (Pos 1 1 0) + 1) (pos_y (Pos 1 1 0)) = Some 0"
    by code_simp
  have a2: "test grid6 (maze_of start6) (pos_x (Pos 1 1 0) - 1) (pos_y (Pos 1 1 0)) = Some FLAGR"
    by code_simp
  have a3: "test grid6 (maze_of start6) (pos_x (Pos 1 1 0)) (pos_y (Pos 1 1 0) - 1) = Some FLAGI"
    by code_simp
  have a4: "test grid6 (maze_of start6) (pos_x (Pos 1 1 0)) (pos_y (Pos 1 1 0) + 1) = Some FLAGI"
    by code_simp
  have b1: "test grid6 (maze_of start6) (pos_x (Pos 2 1 1) + 1) (pos_y (Pos 2 1 1)) = Some FLAGR"
    by code_simp
  have b2: "test grid6 (maze_of start6) (pos_x (Pos 2 1 1) - 1) (pos_y (Pos 2 1 1)) = Some FLAGL"
    by code_simp
  have b3: "test grid6 (maze_of start6) (pos_x (Pos 2 1 1)) (pos_y (Pos 2 1 1) - 1) = Some FLAGI"
    by code_simp
  have b4: "test grid6 (maze_of start6) (pos_x (Pos 2 1 1)) (pos_y (Pos 2 1 1) + 1) = Some FLAGI"
    by code_simp
  have wa: "0 < weight 0 FLAGR FLAGI FLAGI" by (simp add: weight_def flag_defs bias_defs)
  have wb: "weight FLAGR FLAGL FLAGI FLAGI = 0" by (simp add: weight_def flag_defs)
  have w: "weight 0 FLAGR FLAGI FLAGI = 1" by (simp add: weight_def flag_defs bias_defs)
  have r1: "random_int 1 1 = (0, 1103527590)"
    by (simp add: random_int_def signed_modulo_int_def)
  have v0: "fst (random_int (weight 0 FLAGR FLAGI FLAGI) (rng_state start6)) = 0"
    by (simp add: w r1 start6_def)
  have ch: "choose_dir (fst (random_int (weight 0 FLAGR FLAGI FLAGI) (rng_state start6)))
              0 FLAGR FLAGI FLAGI = Some Right"
    unfolding v0 by (simp add: choose_dir_def bias_defs flag_defs)
  have op: "dir_open Right 0 FLAGR FLAGI FLAGI" by (simp add: dir_open_def)
  have ed: "open_edge grid6 park6 (1, 1) Right 1 1 = FLAGL OR FLAGR \<and>
            open_edge grid6 park6 (1, 1) Right 2 1 = FLAGL \<and>
            neighbour grid6 (1, 1) Right = (2, 1)"
    by code_simp
  from expansion_selects_open_direction [OF g c1, of start6 "[]"]
  obtain r l d u where
    t: "test grid6 (maze_of start6) (pos_x (Pos 1 1 0) + 1) (pos_y (Pos 1 1 0)) = Some r"
       "test grid6 (maze_of start6) (pos_x (Pos 1 1 0) - 1) (pos_y (Pos 1 1 0)) = Some l"
       "test grid6 (maze_of start6) (pos_x (Pos 1 1 0)) (pos_y (Pos 1 1 0) - 1) = Some d"
       "test grid6 (maze_of start6) (pos_x (Pos 1 1 0)) (pos_y (Pos 1 1 0) + 1) = Some u"
    and B: "0 < weight r l d u \<longrightarrow>
              (\<exists>dir st'.
                 choose_dir (fst (random_int (weight r l d u) (rng_state start6))) r l d u
                   = Some dir \<and>
                 dir_open dir r l d u \<and>
                 expand grid6 start6 (Pos 1 1 0) [] = Some (Inr st') \<and>
                 maze_of st' = open_edge grid6 (maze_of start6)
                    (pos_x (Pos 1 1 0), pos_y (Pos 1 1 0)) dir \<and>
                 set (queue st') =
                   {Pos (fst (neighbour grid6 (pos_x (Pos 1 1 0), pos_y (Pos 1 1 0)) dir))
                      (snd (neighbour grid6 (pos_x (Pos 1 1 0), pos_y (Pos 1 1 0)) dir))
                      (pos_n (Pos 1 1 0) + 1), Pos 1 1 0} \<union> set [])"
    and C: "expand grid6 start6 (Pos 1 1 0) [] \<noteq> Some (Inl UnexpectedMazePath)"
    by blast
  have rl: "r = 0" "l = FLAGR" "d = FLAGI" "u = FLAGI" using t a1 a2 a3 a4 by simp_all
  from B wa obtain dir st' where
    dir: "choose_dir (fst (random_int (weight 0 FLAGR FLAGI FLAGI) (rng_state start6)))
            0 FLAGR FLAGI FLAGI = Some dir"
    and ex: "expand grid6 start6 (Pos 1 1 0) [] = Some (Inr st')"
    and mz: "maze_of st' = open_edge grid6 (maze_of start6)
                    (pos_x (Pos 1 1 0), pos_y (Pos 1 1 0)) dir"
    and qu: "set (queue st') =
                   {Pos (fst (neighbour grid6 (pos_x (Pos 1 1 0), pos_y (Pos 1 1 0)) dir))
                      (snd (neighbour grid6 (pos_x (Pos 1 1 0), pos_y (Pos 1 1 0)) dir))
                      (pos_n (Pos 1 1 0) + 1), Pos 1 1 0} \<union> set []"
    unfolding rl by blast
  have dr: "dir = Right" using dir ch by simp
  have mz': "maze_of st' = open_edge grid6 park6 (1, 1) Right"
    using mz by (simp add: dr start6_def)
  have qu': "set (queue st') = {Pos 2 1 1, Pos 1 1 0}"
    using qu ed by (simp add: dr)
  have A: "\<exists>st'. expand grid6 start6 (Pos 1 1 0) [] = Some (Inr st') \<and>
          maze_of st' = open_edge grid6 park6 (1, 1) Right \<and>
          maze_of st' 1 1 = FLAGL OR FLAGR \<and> maze_of st' 2 1 = FLAGL \<and>
          set (queue st') = {Pos 2 1 1, Pos 1 1 0}"
    using ex mz' qu' ed by simp
  have D: "expand grid6 start6 (Pos 2 1 1) [] = Some (Inr (start6\<lparr>queue := []\<rparr>))"
    using expansion_selects_open_direction [OF g c2, of start6 "[]"] wb
    unfolding b1 b2 b3 b4 by auto
  have nbr: "neighbour grid6 (1, 1) Right = (2, 1)" using ed by simp
  show ?thesis
    by (intro conjI) (fact g c1 c2 a1 a2 a3 a4 b1 b2 b3 b4 wa wb ch op nbr A C D)+
qed

subsection \<open>The copies of a cell\<close>

lemma clear_fold:
  "fold (\<lambda>(X, Y) m. if band g X Y then m(X := (m X)(Y := m X Y OR FLAGI)) else m) cs m0 =
     (\<lambda>x y. m0 x y OR (if (x, y) \<in> set cs \<and> band g x y then FLAGI else 0))"
proof (induction cs arbitrary: m0)
  case Nil
  then show ?case by simp
next
  case (Cons c cs)
  obtain X Y where c: "c = (X, Y)" by (cases c)
  show ?case
  proof (cases "band g X Y")
    case True
    show ?thesis
      unfolding c using True
      by (simp add: Cons.IH) (intro ext, auto simp: or.assoc)
  next
    case False
    show ?thesis
      unfolding c using False
      by (simp add: Cons.IH) (intro ext, auto)
  qed
qed

lemma clear_band_eq:
  "clear_band g = (\<lambda>x y. if (x, y) \<in> set (cells g) \<and> band g x y then FLAGI else 0)"
  unfolding clear_band_def clear_fold by simp

lemma park_plain:
  assumes "\<not> parkvertical g" and "nubs g \<noteq> 0"
    and "\<not> (W g sdiv nubs g > 3 \<and> H g > helix g + 3)"
    and "1 < W g" and "0 \<le> helix g + 1" and "helix g + 1 < H g"
  shows "park g m =
           Inr (\<lambda>x y. m x y OR (if x = 0 \<and> y = helix g + 1 then FLAGR else 0)
                            OR (if x = 1 \<and> y = helix g + 1 then FLAGL else 0),
                1, helix g + 1)"
proof -
  have r: "(0::int) \<le> 0" "0 < W g" "0 \<le> helix g + 1" "helix g + 1 < H g"
    "(0::int) \<le> 1" "1 < W g" "0 \<le> helix g + 1" "helix g + 1 < H g"
    using assms by simp_all
  from maze_ors_two [OF r, of m FLAGR FLAGL]
  obtain m' where m': "maze_ors g m [(0, helix g + 1, FLAGR), (1, helix g + 1, FLAGL)] = Inr m'"
    and v: "\<forall>x y. m' x y = m x y OR (if x = 0 \<and> y = helix g + 1 then FLAGR else 0)
                                 OR (if x = 1 \<and> y = helix g + 1 then FLAGL else 0)"
    by blast
  have e: "m' = (\<lambda>x y. m x y OR (if x = 0 \<and> y = helix g + 1 then FLAGR else 0)
                            OR (if x = 1 \<and> y = helix g + 1 then FLAGL else 0))"
    by (intro ext) (simp add: v)
  have "park g m = Inr (m', 1, helix g + 1)"
    using assms(1,2,3) by (auto simp: park_def m' per_nub_def simp del: maze_ors.simps)
  then show ?thesis by (simp add: e)
qed

lemma walk_maze_plain:
  assumes "\<not> parkvertical g" and "nubs g \<noteq> 0"
    and "\<not> (W g sdiv nubs g > 3 \<and> H g > helix g + 3)"
    and "1 < W g" and "0 \<le> helix g + 1" and "helix g + 1 < H g"
  shows "park g (clear_band g) = Inr (parked g, 1, helix g + 1) \<and>
         walk_maze g s = build_maze g (parked g) 1 (helix g + 1) s"
proof -
  have "(\<lambda>x y. clear_band g x y OR (if x = 0 \<and> y = helix g + 1 then FLAGR else 0)
                            OR (if x = 1 \<and> y = helix g + 1 then FLAGL else 0)) = parked g"
    by (intro ext) (simp add: clear_band_eq set_cells parked_def in_grid_def)
  then have p: "park g (clear_band g) = Inr (parked g, 1, helix g + 1)"
    using park_plain [OF assms, of "clear_band g"] by simp
  then show ?thesis by (simp add: walk_maze_def)
qed

lemma bit_or_list: "bit (or_list xs) i \<longleftrightarrow> (\<exists>a\<in>set xs. bit a i)"
  by (induction xs) (simp_all add: bit_or_iff)

lemma or_list_set: "set xs = set ys \<Longrightarrow> or_list xs = or_list ys"
  by (rule bit_eqI) (simp add: bit_or_list)

lemma image_rotate:
  fixes f :: "nat \<Rightarrow> 'a"
  assumes "0 < n" and "f n = f 0"
  shows "(\<lambda>k. f (Suc k)) ` {0..<n} = f ` {0..<n}"
proof (intro set_eqI iffI)
  fix a assume "a \<in> (\<lambda>k. f (Suc k)) ` {0..<n}"
  then obtain k where k: "k < n" "a = f (Suc k)" by auto
  show "a \<in> f ` {0..<n}"
  proof (cases "Suc k = n")
    case True
    then have "a = f 0" using k assms by simp
    then show ?thesis using assms by auto
  next
    case False
    then have "Suc k < n" using k by simp
    then show ?thesis using k by auto
  qed
next
  fix a assume "a \<in> f ` {0..<n}"
  then obtain k where k: "k < n" "a = f k" by auto
  show "a \<in> (\<lambda>k. f (Suc k)) ` {0..<n}"
  proof (cases k)
    case 0
    then have "a = f (Suc (n - 1))" using k assms by simp
    moreover have "n - 1 \<in> {0..<n}" using assms by simp
    ultimately show ?thesis by (rule image_eqI)
  next
    case (Suc j)
    then have "j < n" "a = f (Suc j)" using k by simp_all
    then show ?thesis by auto
  qed
qed

lemma test_next_copy:
  assumes w: "0 < W g" and n: "0 < nubs g" and dv: "nubs g dvd W g"
    and h: "helix g = 0 \<or> helix g = nubs g"
  shows "test g m (x + W g sdiv nubs g) (y - (if helix g = nubs g then 1 else 0)) = test g m x y"
proof -
  let ?d = "W g sdiv nubs g"
  let ?c = "if helix g = nubs g then 1 else 0 :: int"
  let ?f = "\<lambda>k. cellval g m (copy_x g x (int k)) (copy_y g x y (int k))"
  have d: "nubs g * ?d = W g"
    using w n dv by (simp add: sdiv_pos_nonneg)
  have cx: "copy_x g (x + ?d) (int k) = copy_x g x (int (Suc k))" for k
    by (simp add: copy_x_def algebra_simps)
  have cy: "copy_y g (x + ?d) (y - ?c) (int k) = copy_y g x y (int (Suc k))" for k
    by (simp add: copy_y_def algebra_simps)
  have shifted: "group_cells g m (x + ?d) (y - ?c) (nat (nubs g)) =
                 map (\<lambda>k. ?f (Suc k)) [0..<nat (nubs g)]"
    unfolding group_cells_def using cx cy by simp
  have xw: "(x + W g) div W g = x div W g + 1"
    using w div_add_self2 [of "W g" x] by simp
  have last_x: "copy_x g x (int (nat (nubs g))) = copy_x g x 0"
    using n d by (simp add: copy_x_def)
  have last_y: "copy_y g x y (int (nat (nubs g))) = copy_y g x y 0"
    using n d h xw by (auto simp: copy_y_def algebra_simps)
  have "?f (nat (nubs g)) = ?f 0" using last_x last_y by simp
  moreover have "0 < nat (nubs g)" using n by simp
  ultimately have "(\<lambda>k. ?f (Suc k)) ` {0..<nat (nubs g)} = ?f ` {0..<nat (nubs g)}"
    by (rule image_rotate [where f = ?f, rotated])
  then have "set (group_cells g m (x + ?d) (y - ?c) (nat (nubs g))) =
             set (group_cells g m x y (nat (nubs g)))"
    unfolding shifted by (simp add: group_cells_def)
  then have "or_list (group_cells g m (x + ?d) (y - ?c) (nat (nubs g))) =
             or_list (group_cells g m x y (nat (nubs g)))"
    by (rule or_list_set)
  then show ?thesis
    unfolding test_eq [OF w n] by simp
qed

lemma test_kth_copy:
  assumes w: "0 < W g" and n: "0 < nubs g" and dv: "nubs g dvd W g"
    and h: "helix g = 0 \<or> helix g = nubs g"
  shows "test g m (x + int k * (W g sdiv nubs g)) (y - (if helix g = nubs g then int k else 0))
           = test g m x y"
proof (induction k)
  case 0
  then show ?case by simp
next
  case (Suc k)
  have "test g m (x + int (Suc k) * (W g sdiv nubs g))
          (y - (if helix g = nubs g then int (Suc k) else 0)) =
        test g m ((x + int k * (W g sdiv nubs g)) + W g sdiv nubs g)
          ((y - (if helix g = nubs g then int k else 0)) - (if helix g = nubs g then 1 else 0))"
    by (simp add: algebra_simps)
  also have "\<dots> = test g m (x + int k * (W g sdiv nubs g))
                     (y - (if helix g = nubs g then int k else 0))"
    by (rule test_next_copy [OF assms])
  finally show ?case using Suc.IH by simp
qed

lemma test_wrapped:
  assumes w: "0 < W g" and n: "0 < nubs g"
  shows "test g m (x mod W g) (y + helix g * (x div W g)) = test g m x y"
  by (simp add: test_eq [OF w n] group_cells_wrap [OF w])

text \<open>
  Claim C1, as the code has it. What is the same for all copies of a cell is the
  group query, not the stored byte. The \<open>k\<close>-th copy of the cell \<open>(x, y)\<close> is
  \<open>k\<close> steps of \<^verbatim>\<open>W / nubs\<close> to the right, wrapped by the helix rule, and, when
  \<open>helix = nubs\<close>, \<open>k\<close> rows down. On a grid with \<open>W > 0\<close> a multiple of
  \<open>nubs > 0\<close> and with \<open>helix\<close> either 0 or \<open>nubs\<close>, the query at the \<open>k\<close>-th
  copy of a cell returns what the query at the cell returns, whatever the maze
  array holds, so also after the maze has been generated.
\<close>

theorem query_same_for_copies:
  assumes "0 < W g" and "0 < nubs g" and "nubs g dvd W g"
    and "helix g = 0 \<or> helix g = nubs g"
  shows "test g m (copy_x g x (int k)) (copy_y g x y (int k)) = test g m x y"
proof -
  have "test g m (copy_x g x (int k)) (copy_y g x y (int k)) =
        test g m (x + int k * (W g sdiv nubs g)) (y - (if helix g = nubs g then int k else 0))"
    using test_wrapped [OF assms(1,2), of m "x + int k * (W g sdiv nubs g)"
            "y - (if helix g = nubs g then int k else 0)"]
    by (simp add: copy_x_def copy_y_def algebra_simps)
  then show ?thesis using test_kth_copy [OF assms] by simp
qed

theorem query_same_for_copies_witness:
  "0 < W helix6 \<and> 0 < nubs helix6 \<and> nubs helix6 dvd W helix6 \<and>
   (helix helix6 = 0 \<or> helix helix6 = nubs helix6) \<and>
   copy_x helix6 0 (int 2) = 4 \<and> copy_y helix6 0 5 (int 2) = 3 \<and>
   test helix6 (\<lambda>x y. if x = 4 \<and> y = 3 then FLAGR else 0) 4 3 =
   test helix6 (\<lambda>x y. if x = 4 \<and> y = 3 then FLAGR else 0) 0 5"
proof -
  have h: "0 < W helix6" "0 < nubs helix6" "nubs helix6 dvd W helix6"
    "helix helix6 = 0 \<or> helix helix6 = nubs helix6"
    by (simp_all add: helix6_def)
  have c: "copy_x helix6 0 (int 2) = 4" "copy_y helix6 0 5 (int 2) = 3"
    by (simp_all add: copy_x_def copy_y_def helix6_def signed_divide_int_def)
  from query_same_for_copies [OF h, where m = "\<lambda>x y. if x = 4 \<and> y = 3 then FLAGR else 0"
         and x = 0 and y = 5 and k = 2]
  show ?thesis using h c by simp
qed

text \<open>
  The stored masks differ. On \<open>grid6\<close> (\<open>nubs = 2\<close>) with the seed 1 the walk
  opens the edge between \<open>(1, 1)\<close> and \<open>(2, 1)\<close>; afterwards \<open>(1, 1)\<close> holds
  left and right while its copy \<open>(4, 1)\<close> holds no edge, before and after the
  entry channel is carved.

  Nor are the queries the same at the cells that are \<^verbatim>\<open>W / nubs\<close> apart in
  the same row when \<open>helix = nubs\<close>: on \<open>helix7\<close> (\<open>helix = nubs = 3\<close>) with
  the seed 1 the walk goes from \<open>(1, 4)\<close> to \<open>(2, 4)\<close> and on to \<open>(3, 4)\<close>, and
  leaves the query right at \<open>(0, 4)\<close> and left and right at \<open>(2, 4)\<close>; the copy
  that the query walks is \<open>(2, 3)\<close>, one row down.

  Nor are they the same at the copies when \<open>helix\<close> is neither 0 nor \<open>nubs\<close>:
  on \<open>helix4\<close> (\<open>nubs = 2\<close>, \<open>helix = 4\<close>) with the seed 1 the only move of the
  walk goes from \<open>(1, 5)\<close> down to \<open>(1, 4)\<close>, and leaves the query with the edge
  up at \<open>(1, 4)\<close> and Invalid at its copy \<open>(3, 4)\<close>, a cell of the band that
  holds no flag.
\<close>

lemma grid6_run:
  "case build_maze grid6 (parked grid6) 1 1 1 of
      Some (Inr (m, mxx, a, s)) \<Rightarrow>
        m 1 1 AND FLAGA = FLAGL OR FLAGR \<and> m 4 1 AND FLAGA = 0 \<and>
        (case carve_entry grid6 m mxx of
           Some (Inr m2) \<Rightarrow> m2 1 1 AND FLAGA = FLAGL OR FLAGR \<and> m2 4 1 AND FLAGA = 0
         | _ \<Rightarrow> False)
    | _ \<Rightarrow> False"
  by code_simp

lemma helix7_run:
  "case build_maze helix7 (parked helix7) 1 4 1 of
     Some (Inr (m, mxx, a, s)) \<Rightarrow>
       map (\<lambda>x. m x 4) [0, 1, 2, 3] = [FLAGR, FLAGL OR FLAGR, FLAGL OR FLAGR, FLAGL] \<and>
       test helix7 m 0 4 = Some FLAGR \<and> test helix7 m 2 4 = Some (FLAGL OR FLAGR) \<and>
       test helix7 m 2 3 = Some FLAGR
   | _ \<Rightarrow> False"
  by code_simp

lemma helix4_run:
  "case build_maze helix4 (parked helix4) 1 5 1 of
     Some (Inr (m, mxx, a, s)) \<Rightarrow>
       m 1 4 = FLAGU \<and> m 3 4 = 0 \<and>
       test helix4 m 1 4 = Some FLAGU \<and> test helix4 m 3 4 = Some FLAGI
   | _ \<Rightarrow> False"
  by code_simp

theorem stored_masks_counterexample:
  "1 < nubs grid6 \<and> copy_x grid6 1 1 = 4 \<and> copy_y grid6 1 1 1 = 1 \<and>
   (case walk_maze grid6 1 of
      Some (Inr (m, mxx, a, s)) \<Rightarrow>
        m 1 1 AND FLAGA = FLAGL OR FLAGR \<and> m 4 1 AND FLAGA = 0 \<and>
        (case carve_entry grid6 m mxx of
           Some (Inr m2) \<Rightarrow> m2 1 1 AND FLAGA = FLAGL OR FLAGR \<and> m2 4 1 AND FLAGA = 0
         | _ \<Rightarrow> False)
    | _ \<Rightarrow> False) \<and>
   nubs helix7 = 3 \<and> helix helix7 = 3 \<and> W helix7 sdiv nubs helix7 = 2 \<and>
   copy_x helix7 0 1 = 2 \<and> copy_y helix7 0 4 1 = 3 \<and>
   (case walk_maze helix7 1 of
      Some (Inr (m, mxx, a, s)) \<Rightarrow>
        map (\<lambda>x. m x 4) [0, 1, 2, 3] = [FLAGR, FLAGL OR FLAGR, FLAGL OR FLAGR, FLAGL] \<and>
        test helix7 m 0 4 = Some FLAGR \<and> test helix7 m 2 4 = Some (FLAGL OR FLAGR) \<and>
        test helix7 m 2 3 = Some FLAGR
    | _ \<Rightarrow> False) \<and>
   nubs helix4 = 2 \<and> helix helix4 = 4 \<and> copy_x helix4 1 1 = 3 \<and> copy_y helix4 1 4 1 = 4 \<and>
   (case walk_maze helix4 1 of
      Some (Inr (m, mxx, a, s)) \<Rightarrow>
        m 1 4 = FLAGU \<and> m 3 4 = 0 \<and>
        test helix4 m 1 4 = Some FLAGU \<and> test helix4 m 3 4 = Some FLAGI
    | _ \<Rightarrow> False)"
proof -
  have c: "1 < nubs grid6" "copy_x grid6 1 1 = 4" "copy_y grid6 1 1 1 = 1"
    by (simp_all add: copy_x_def copy_y_def grid6_def signed_divide_int_def)
  have h6: "nubs helix7 = 3" "helix helix7 = 3" "W helix7 sdiv nubs helix7 = 2"
    "copy_x helix7 0 1 = 2" "copy_y helix7 0 4 1 = 3"
    by (simp_all add: copy_x_def copy_y_def helix7_def helix6_def signed_divide_int_def)
  have h4: "nubs helix4 = 2" "helix helix4 = 4" "copy_x helix4 1 1 = 3" "copy_y helix4 1 4 1 = 4"
    by (simp_all add: copy_x_def copy_y_def helix4_def signed_divide_int_def)
  have p6: "\<not> parkvertical grid6" "nubs grid6 \<noteq> 0"
    "\<not> (W grid6 sdiv nubs grid6 > 3 \<and> H grid6 > helix grid6 + 3)"
    "1 < W grid6" "0 \<le> helix grid6 + 1" "helix grid6 + 1 < H grid6"
    by (simp_all add: grid6_def signed_divide_int_def)
  have q6: "\<not> parkvertical helix7" "nubs helix7 \<noteq> 0"
    "\<not> (W helix7 sdiv nubs helix7 > 3 \<and> H helix7 > helix helix7 + 3)"
    "1 < W helix7" "0 \<le> helix helix7 + 1" "helix helix7 + 1 < H helix7"
    by (simp_all add: helix7_def helix6_def signed_divide_int_def)
  have q4: "\<not> parkvertical helix4" "nubs helix4 \<noteq> 0"
    "\<not> (W helix4 sdiv nubs helix4 > 3 \<and> H helix4 > helix helix4 + 3)"
    "1 < W helix4" "0 \<le> helix helix4 + 1" "helix helix4 + 1 < H helix4"
    by (simp_all add: helix4_def signed_divide_int_def)
  have s: "helix grid6 + 1 = 1" "helix helix7 + 1 = 4" "helix helix4 + 1 = 5"
    by (simp_all add: grid6_def helix7_def helix6_def helix4_def)
  have w1: "walk_maze grid6 1 = build_maze grid6 (parked grid6) 1 1 1"
    using walk_maze_plain [OF p6, of 1] unfolding s by simp
  have w2: "walk_maze helix7 1 = build_maze helix7 (parked helix7) 1 4 1"
    using walk_maze_plain [OF q6, of 1] unfolding s by simp
  have w3: "walk_maze helix4 1 = build_maze helix4 (parked helix4) 1 5 1"
    using walk_maze_plain [OF q4, of 1] unfolding s by simp
  have r1: "case walk_maze grid6 1 of
      Some (Inr (m, mxx, a, s)) \<Rightarrow>
        m 1 1 AND FLAGA = FLAGL OR FLAGR \<and> m 4 1 AND FLAGA = 0 \<and>
        (case carve_entry grid6 m mxx of
           Some (Inr m2) \<Rightarrow> m2 1 1 AND FLAGA = FLAGL OR FLAGR \<and> m2 4 1 AND FLAGA = 0
         | _ \<Rightarrow> False)
    | _ \<Rightarrow> False"
    unfolding w1 by (rule grid6_run)
  have r2: "case walk_maze helix7 1 of
      Some (Inr (m, mxx, a, s)) \<Rightarrow>
        map (\<lambda>x. m x 4) [0, 1, 2, 3] = [FLAGR, FLAGL OR FLAGR, FLAGL OR FLAGR, FLAGL] \<and>
        test helix7 m 0 4 = Some FLAGR \<and> test helix7 m 2 4 = Some (FLAGL OR FLAGR) \<and>
        test helix7 m 2 3 = Some FLAGR
    | _ \<Rightarrow> False"
    unfolding w2 by (rule helix7_run)
  have r3: "case walk_maze helix4 1 of
      Some (Inr (m, mxx, a, s)) \<Rightarrow>
        m 1 4 = FLAGU \<and> m 3 4 = 0 \<and>
        test helix4 m 1 4 = Some FLAGU \<and> test helix4 m 3 4 = Some FLAGI
    | _ \<Rightarrow> False"
    unfolding w3 by (rule helix4_run)
  show ?thesis
    by (intro conjI) (fact c h6 h4 r1 r2 r3)+
qed

subsection \<open>The exit\<close>

lemma frontier_step:
  assumes "queue b = p # ps"
  shows "frontier g b =
           (case expand g b p ps of None \<Rightarrow> None | Some (Inl e) \<Rightarrow> Some (Inl e)
            | Some (Inr c) \<Rightarrow> frontier g c)"
  using assms
  by (subst frontier.simps) (simp split: option.splits sum.splits)

lemma frontier_reaches:
  assumes "reaches g a b" and "frontier g a = Some (Inr f)"
  shows "frontier g b = Some (Inr f)"
  using assms
proof (induction rule: reaches.induct)
  case start
  then show ?case by simp
next
  case (step b p ps c)
  then have "frontier g b = Some (Inr f)" by simp
  then show ?case using step.hyps(2,3) by (simp add: frontier_step [of b p ps])
qed

lemma track_entry_cases:
  assumes "track_entry g m pn X Y mx mxx = Some (Inr (mx', mxx'))"
  shows "(mx' = mx \<and> mxx' = mxx) \<or> (eligible g m X Y \<and> mx < pn \<and> mx' = pn \<and> mxx' = X)"
proof (cases "pn > mx")
  case False
  then show ?thesis using assms by (simp add: track_entry_def)
next
  case True
  then obtain t where t: "test g m X (Y + 1) = Some t"
    using assms by (cases "test g m X (Y + 1)") (simp_all add: track_entry_def)
  show ?thesis
  proof (cases "t AND FLAGI \<noteq> 0")
    case False
    then show ?thesis using assms True t by (simp add: track_entry_def)
  next
    case top: True
    then obtain ok where ok: "entry_column g X = Inr ok"
      using assms True t by (cases "entry_column g X") (simp_all add: track_entry_def)
    show ?thesis
    proof (cases ok)
      case True
      then have "eligible g m X Y"
        using t top ok by (auto simp: eligible_def entry_column_def split: if_splits)
      then show ?thesis using assms \<open>pn > mx\<close> t top ok True by (simp add: track_entry_def)
    next
      case False
      then show ?thesis using assms \<open>pn > mx\<close> t top ok by (simp add: track_entry_def)
    qed
  qed
qed

lemma track_entry_records:
  assumes "track_entry g m pn X Y mx mxx = Some (Inr (mx', mxx'))" and "eligible g m X Y"
  shows "pn \<le> mx'"
  using assms
  by (auto simp: track_entry_def eligible_def entry_column_def
      split: option.splits sum.splits if_splits)

lemma expand_cases:
  assumes "expand g b p ps = Some (Inr c)"
  shows "(explore g (maze_of b) p (rng_state b) = Some (Inr None) \<and> c = b\<lparr>queue := ps\<rparr>) \<or>
         (\<exists>m' X Y s1. explore g (maze_of b) p (rng_state b) = Some (Inr (Some (m', X, Y, s1))) \<and>
            track_entry g m' (pos_n p) X Y (maxn b) (maxx b) = Some (Inr (maxn c, maxx c)))"
proof (cases "explore g (maze_of b) p (rng_state b)")
  case None
  then show ?thesis using assms by (simp add: expand_def)
next
  case (Some r)
  show ?thesis
  proof (cases r)
    case (Inl e)
    then show ?thesis using assms Some by (simp add: expand_def)
  next
    case (Inr q)
    show ?thesis
    proof (cases q)
      case None
      then show ?thesis using assms Some Inr by (simp add: expand_def)
    next
      case (Some t)
      obtain m' X Y s1 where t: "t = (m', X, Y, s1)" by (cases t)
      have ex: "explore g (maze_of b) p (rng_state b) = Some (Inr (Some (m', X, Y, s1)))"
        using \<open>explore g (maze_of b) p (rng_state b) = Some r\<close> Inr Some t by simp
      obtain w where w: "track_entry g m' (pos_n p) X Y (maxn b) (maxx b) = Some w"
        using assms ex
        by (cases "track_entry g m' (pos_n p) X Y (maxn b) (maxx b)") (simp_all add: expand_def)
      obtain mx mxx where mm: "w = Inr (mx, mxx)"
        using assms ex w by (cases w) (auto simp: expand_def)
      have "maxn c = mx" "maxx c = mxx"
        using assms ex w mm by (auto simp: expand_def)
      then show ?thesis using ex w mm by simp
    qed
  qed
qed

lemma expand_track:
  assumes "expand g b p ps = Some (Inr c)"
  shows "(maxn c = maxn b \<and> maxx c = maxx b) \<or>
         (\<exists>m' X Y s1. explore g (maze_of b) p (rng_state b) = Some (Inr (Some (m', X, Y, s1))) \<and>
            eligible g m' X Y \<and> maxn b < pos_n p \<and> maxn c = pos_n p \<and> maxx c = X)"
  using expand_cases [OF assms]
proof
  assume "explore g (maze_of b) p (rng_state b) = Some (Inr None) \<and> c = b\<lparr>queue := ps\<rparr>"
  then show ?thesis by simp
next
  assume "\<exists>m' X Y s1. explore g (maze_of b) p (rng_state b) = Some (Inr (Some (m', X, Y, s1))) \<and>
            track_entry g m' (pos_n p) X Y (maxn b) (maxx b) = Some (Inr (maxn c, maxx c))"
  then obtain m' X Y s1 where
    ex: "explore g (maze_of b) p (rng_state b) = Some (Inr (Some (m', X, Y, s1)))" and
    tr: "track_entry g m' (pos_n p) X Y (maxn b) (maxx b) = Some (Inr (maxn c, maxx c))"
    by blast
  from track_entry_cases [OF tr] show ?thesis using ex by blast
qed

lemma expand_mono:
  assumes "expand g b p ps = Some (Inr c)"
  shows "maxn b \<le> maxn c"
  using expand_track [OF assms] by auto

lemma expand_records:
  assumes "expand g b p ps = Some (Inr c)"
    and "explore g (maze_of b) p (rng_state b) = Some (Inr (Some (m', X, Y, s1)))"
    and "eligible g m' X Y"
  shows "pos_n p \<le> maxn c"
proof -
  have "track_entry g m' (pos_n p) X Y (maxn b) (maxx b) = Some (Inr (maxn c, maxx c))"
    using expand_cases [OF assms(1)] assms(2) by auto
  then show ?thesis using assms(3) by (rule track_entry_records)
qed

lemma reaches_mono:
  assumes "reaches g a b"
  shows "maxn a \<le> maxn b"
  using assms
proof (induction rule: reaches.induct)
  case start
  then show ?case by simp
next
  case (step b p ps c)
  then show ?case using expand_mono [of g b p ps c] by simp
qed

lemma reaches_prepend:
  assumes "reaches g c f" and "queue a = p # ps" and "expand g a p ps = Some (Inr c)"
  shows "reaches g a f"
  using assms(1)
proof (induction rule: reaches.induct)
  case start
  show ?case using reaches.start assms(2,3) by (rule reaches.step)
next
  case (step b q qs d)
  then show ?case using reaches.step by blast
qed

lemma frontier_final:
  assumes "frontier g a = Some r"
  shows "\<forall>f. r = Inr f \<longrightarrow> reaches g a f \<and> queue f = []"
proof (rule frontier.raw_induct
    [where P = "\<lambda>g a r. \<forall>f. r = Inr f \<longrightarrow> reaches g a f \<and> queue f = []", OF _ assms],
    goal_cases)
  case (1 fr g a r)
  show ?case
  proof (cases "queue a")
    case Nil
    then show ?thesis using 1(2) by (auto intro: reaches.start)
  next
    case (Cons p ps)
    show ?thesis
    proof (intro allI impI)
      fix f assume r: "r = Inr f"
      from 1(2) Cons r obtain q where q: "expand g a p ps = Some q"
        and fq: "(case q of Inl e \<Rightarrow> Some (Inl e) | Inr st' \<Rightarrow> fr g st') = Some (Inr f)"
        by (auto simp: bind_eq_Some_conv)
      obtain c where qc: "q = Inr c" using fq by (cases q) simp_all
      have c: "expand g a p ps = Some (Inr c)" and fc: "fr g c = Some (Inr f)"
        using q fq qc by simp_all
      have "reaches g c f" "queue f = []" using 1(1) fc by blast+
      then show "reaches g a f \<and> queue f = []"
        using reaches_prepend [OF _ Cons c] by simp
    qed
  qed
qed

lemma filter_length_less:
  assumes "\<forall>x\<in>set xs. P x \<longrightarrow> Q x" and "\<exists>x\<in>set xs. Q x \<and> \<not> P x"
  shows "length (filter P xs) < length (filter Q xs)"
  using assms
proof (induction xs)
  case Nil
  then show ?case by simp
next
  case (Cons a xs)
  have le: "length (filter P xs) \<le> length (filter Q xs)"
    using Cons.prems(1) by (induction xs) auto
  show ?case
  proof (cases "Q a \<and> \<not> P a")
    case True
    then show ?thesis using le by simp
  next
    case False
    then have "\<exists>x\<in>set xs. Q x \<and> \<not> P x" using Cons.prems(2) by auto
    then have "length (filter P xs) < length (filter Q xs)" using Cons.IH Cons.prems(1) by simp
    then show ?thesis using Cons.prems(1) by auto
  qed
qed

lemma back_of_nonzero: "back_of dir \<noteq> 0"
  by (cases dir) (simp_all add: back_of_def flag_defs)

lemma zeros_open_edge:
  assumes "in_grid g (fst (neighbour g c dir)) (snd (neighbour g c dir))"
    and "m (fst (neighbour g c dir)) (snd (neighbour g c dir)) = 0"
  shows "zeros g (open_edge g m c dir) < zeros g m"
  unfolding zeros_def
proof (rule filter_length_less)
  show "\<forall>x\<in>set (cells g). open_edge g m c dir (fst x) (snd x) = 0 \<longrightarrow> m (fst x) (snd x) = 0"
    by (simp add: open_edge_def or_eq_0_iff)
  have "neighbour g c dir \<in> set (cells g)"
    using assms(1) by (simp add: set_cells in_grid_def case_prod_beta)
  moreover have "open_edge g m c dir (fst (neighbour g c dir)) (snd (neighbour g c dir)) \<noteq> 0"
    by (simp add: open_edge_def or_eq_0_iff back_of_nonzero)
  ultimately show "\<exists>x\<in>set (cells g). m (fst x) (snd x) = 0 \<and> open_edge g m c dir (fst x) (snd x) \<noteq> 0"
    using assms(2) by blast
qed

lemma expand_total:
  assumes w: "0 < W g" and n: "0 < nubs g" and nw: "nubs g \<le> W g"
    and c: "in_grid g (pos_x p) (pos_y p)"
  shows "\<exists>st'. expand g st p ps = Some (Inr st') \<and>
           2 * zeros g (maze_of st') + length (queue st') <
             2 * zeros g (maze_of st) + Suc (length ps) \<and>
           (\<forall>q\<in>set (queue st'). q = p \<or> q \<in> set ps \<or> in_grid g (pos_x q) (pos_y q))"
proof -
  obtain r where r: "test g (maze_of st) (pos_x p + 1) (pos_y p) = Some r"
    using test_eq [OF w n] by simp
  obtain l where l: "test g (maze_of st) (pos_x p - 1) (pos_y p) = Some l"
    using test_eq [OF w n] by simp
  obtain d where d: "test g (maze_of st) (pos_x p) (pos_y p - 1) = Some d"
    using test_eq [OF w n] by simp
  obtain u where u: "test g (maze_of st) (pos_x p) (pos_y p + 1) = Some u"
    using test_eq [OF w n] by simp
  show ?thesis
  proof (cases "weight r l d u = 0")
    case True
    then have "expand g st p ps = Some (Inr (st\<lparr>queue := ps\<rparr>))"
      using expansion_by_queries [OF r l d u, of ps] by simp
    then show ?thesis by simp
  next
    case False
    then have pos: "0 < weight r l d u" using weight_nonneg [of r l d u] by simp
    from expand_open [OF w n nw c r l d u pos, of ps]
    obtain dir mx mxx where
      nb: "in_grid g (fst (neighbour g (pos_x p, pos_y p) dir))
             (snd (neighbour g (pos_x p, pos_y p) dir))"
      and z: "maze_of st (fst (neighbour g (pos_x p, pos_y p) dir))
             (snd (neighbour g (pos_x p, pos_y p) dir)) = 0"
      and ex: "expand g st p ps =
             Some (Inr \<lparr>maze_of = open_edge g (maze_of st) (pos_x p, pos_y p) dir,
               queue = requeue (mazecomplexity g)
                 (fst (random_int 10 (snd (random_int (weight r l d u) (rng_state st)))))
                 (Pos (fst (neighbour g (pos_x p, pos_y p) dir))
                    (snd (neighbour g (pos_x p, pos_y p) dir)) (pos_n p + 1)) p ps,
               maxn = mx, maxx = mxx,
               rng_state = snd (random_int 10 (snd (random_int (weight r l d u) (rng_state st))))\<rparr>)"
      by blast
    have "zeros g (open_edge g (maze_of st) (pos_x p, pos_y p) dir) < zeros g (maze_of st)"
      using nb z by (rule zeros_open_edge)
    then show ?thesis
      unfolding ex using nb by (auto simp: requeue_set requeue_length)
  qed
qed

lemma frontier_total:
  assumes w: "0 < W g" and n: "0 < nubs g" and nw: "nubs g \<le> W g"
    and q: "\<forall>q\<in>set (queue a). in_grid g (pos_x q) (pos_y q)"
  shows "\<exists>f. frontier g a = Some (Inr f)"
  using q
proof (induction "2 * zeros g (maze_of a) + length (queue a)" arbitrary: a rule: less_induct)
  case less
  show ?case
  proof (cases "queue a")
    case Nil
    then show ?thesis by (subst frontier.simps) simp
  next
    case (Cons p ps)
    have c: "in_grid g (pos_x p) (pos_y p)" using less.prems Cons by simp
    from expand_total [OF w n nw c, of a ps]
    obtain st' where ex: "expand g a p ps = Some (Inr st')"
      and m: "2 * zeros g (maze_of st') + length (queue st') <
                2 * zeros g (maze_of a) + Suc (length ps)"
      and i: "\<forall>q\<in>set (queue st'). q = p \<or> q \<in> set ps \<or> in_grid g (pos_x q) (pos_y q)"
      by blast
    have "2 * zeros g (maze_of st') + length (queue st') <
            2 * zeros g (maze_of a) + length (queue a)"
      using m Cons by simp
    moreover have "\<forall>q\<in>set (queue st'). in_grid g (pos_x q) (pos_y q)"
      using i less.prems Cons by auto
    ultimately obtain f where "frontier g st' = Some (Inr f)" using less.hyps by blast
    then show ?thesis by (simp add: frontier_step [OF Cons] ex)
  qed
qed

text \<open>Every node that the walk from a cell of the grid puts in its queue is a cell of the grid.\<close>

lemma reaches_in_grid:
  assumes w: "0 < W g" and n: "0 < nubs g" and nw: "nubs g \<le> W g"
    and r: "reaches g a b"
    and q: "\<forall>q\<in>set (queue a). in_grid g (pos_x q) (pos_y q)"
  shows "\<forall>q\<in>set (queue b). in_grid g (pos_x q) (pos_y q)"
  using r
proof (induction rule: reaches.induct)
  case start
  show ?case by (rule q)
next
  case (step b p ps c)
  have c: "in_grid g (pos_x p) (pos_y p)" using step.IH step.hyps(2) by simp
  from expand_total [OF w n nw c, of b ps] step.hyps(3)
  have "\<forall>q\<in>set (queue c). q = p \<or> q \<in> set ps \<or> in_grid g (pos_x q) (pos_y q)"
    by auto
  then show ?case using step.IH step.hyps(2) by auto
qed

lemma tracking:
  assumes "frontier g a = Some (Inr f)"
  shows "(\<forall>b p ps m' X Y s1.
            reaches g a b \<and> queue b = p # ps \<and>
            explore g (maze_of b) p (rng_state b) = Some (Inr (Some (m', X, Y, s1))) \<and>
            eligible g m' X Y \<longrightarrow> pos_n p \<le> maxn f) \<and>
         ((maxn f = maxn a \<and> maxx f = maxx a) \<or>
          (\<exists>b p ps m' X Y s1.
            reaches g a b \<and> queue b = p # ps \<and>
            explore g (maze_of b) p (rng_state b) = Some (Inr (Some (m', X, Y, s1))) \<and>
            eligible g m' X Y \<and> maxn b < pos_n p \<and> pos_n p = maxn f \<and> X = maxx f))"
proof (intro conjI allI impI)
  fix b p ps m' X Y s1
  assume h: "reaches g a b \<and> queue b = p # ps \<and>
            explore g (maze_of b) p (rng_state b) = Some (Inr (Some (m', X, Y, s1))) \<and>
            eligible g m' X Y"
  then have fb: "frontier g b = Some (Inr f)" using frontier_reaches assms by blast
  then obtain q where q: "expand g b p ps = Some q"
    and fq: "(case q of Inl e \<Rightarrow> Some (Inl e) | Inr c \<Rightarrow> frontier g c) = Some (Inr f)"
    using h by (cases "expand g b p ps") (simp_all add: frontier_step [of b p ps])
  obtain c where qc: "q = Inr c" using fq by (cases q) simp_all
  have c: "expand g b p ps = Some (Inr c)" and fc: "frontier g c = Some (Inr f)"
    using q fq qc by simp_all
  have "pos_n p \<le> maxn c" using expand_records [OF c] h by blast
  moreover have "maxn c \<le> maxn f" using frontier_final [OF fc] reaches_mono by blast
  ultimately show "pos_n p \<le> maxn f" by simp
next
  have rf: "reaches g a f" using frontier_final [OF assms] by simp
  have "reaches g a f \<Longrightarrow>
        (maxn f = maxn a \<and> maxx f = maxx a) \<or>
          (\<exists>b p ps m' X Y s1.
            reaches g a b \<and> queue b = p # ps \<and>
            explore g (maze_of b) p (rng_state b) = Some (Inr (Some (m', X, Y, s1))) \<and>
            eligible g m' X Y \<and> maxn b < pos_n p \<and> pos_n p = maxn f \<and> X = maxx f)"
  proof (induction rule: reaches.induct)
    case start
    then show ?case by simp
  next
    case (step b p ps c)
    from expand_track [OF step.hyps(3)] show ?case
    proof
      assume "maxn c = maxn b \<and> maxx c = maxx b"
      then show ?thesis using step.IH by simp
    next
      assume "\<exists>m' X Y s1. explore g (maze_of b) p (rng_state b) = Some (Inr (Some (m', X, Y, s1))) \<and>
            eligible g m' X Y \<and> maxn b < pos_n p \<and> maxn c = pos_n p \<and> maxx c = X"
      then show ?thesis using step.hyps(1,2) by metis
    qed
  qed
  then show "(maxn f = maxn a \<and> maxx f = maxx a) \<or>
          (\<exists>b p ps m' X Y s1.
            reaches g a b \<and> queue b = p # ps \<and>
            explore g (maze_of b) p (rng_state b) = Some (Inr (Some (m', X, Y, s1))) \<and>
            eligible g m' X Y \<and> maxn b < pos_n p \<and> pos_n p = maxn f \<and> X = maxx f)"
    using rf by simp
qed

text \<open>
  Claim C7, as the code has it. Let the walk start from a cell of a grid with
  \<open>W > 0\<close> and \<open>0 < nubs \<le> W\<close>. It ends, in a state \<open>f\<close> whose queue is empty,
  and the maze build returns the maze, \<open>maxx\<close> and the random state of \<open>f\<close>, with
  the entry angle of \<open>maxx\<close> steps out of \<open>W\<close>. Call an expansion counted when
  the cell it moves to has an Invalid cell above (by the group query) and, if
  \<open>flip\<close> is set and the maze is outside, lies in a column that is a multiple of
  \<^verbatim>\<open>W / nubs\<close>. Then the depth \<^verbatim>\<open>p->n\<close> of the node expanded is at most the
  final \<open>max\<close> for every counted expansion of the walk; and either \<open>max\<close> and
  \<open>maxx\<close> are still 0, or \<open>maxx\<close> is the column moved to by a counted expansion
  whose node depth is the final \<open>max\<close> and exceeded the \<open>max\<close> of that moment.
  The depth compared is that of the node expanded, one less than the depth of
  the cell moved to.
\<close>

theorem exit_tracking:
  assumes "0 < W g" and "0 < nubs g" and "nubs g \<le> W g" and "\<not> testmaze g"
    and "in_grid g X0 Y0"
  shows "\<exists>f. maze_mode g m X0 Y0 s = Some (Inr f) \<and>
             build_maze g m X0 Y0 s =
               Some (Inr (maze_of f, maxx f, Turn (maxx f) (W g), rng_state f)) \<and>
             reaches g (walk_start m X0 Y0 s) f \<and> queue f = [] \<and>
             (\<forall>b p ps m' X Y s1.
                reaches g (walk_start m X0 Y0 s) b \<and> queue b = p # ps \<and>
                explore g (maze_of b) p (rng_state b) = Some (Inr (Some (m', X, Y, s1))) \<and>
                eligible g m' X Y \<longrightarrow> pos_n p \<le> maxn f) \<and>
             ((maxn f = 0 \<and> maxx f = 0) \<or>
              (\<exists>b p ps m' X Y s1.
                reaches g (walk_start m X0 Y0 s) b \<and> queue b = p # ps \<and>
                explore g (maze_of b) p (rng_state b) = Some (Inr (Some (m', X, Y, s1))) \<and>
                eligible g m' X Y \<and> maxn b < pos_n p \<and> pos_n p = maxn f \<and> X = maxx f))"
proof -
  let ?a = "walk_start m X0 Y0 s"
  have "\<forall>q\<in>set (queue ?a). in_grid g (pos_x q) (pos_y q)"
    using assms(5) by (simp add: walk_start_def)
  then obtain f where f: "frontier g ?a = Some (Inr f)"
    using frontier_total [OF assms(1,2,3)] by blast
  have mm: "maze_mode g m X0 Y0 s = Some (Inr f)"
    using f by (simp add: maze_mode_def walk_start_def)
  have bm: "build_maze g m X0 Y0 s =
               Some (Inr (maze_of f, maxx f, Turn (maxx f) (W g), rng_state f))"
    using assms(4) by (simp add: build_maze_def mm)
  have rf: "reaches g ?a f \<and> queue f = []" using frontier_final [OF f] by simp
  have tr: "(\<forall>b p ps m' X Y s1.
            reaches g ?a b \<and> queue b = p # ps \<and>
            explore g (maze_of b) p (rng_state b) = Some (Inr (Some (m', X, Y, s1))) \<and>
            eligible g m' X Y \<longrightarrow> pos_n p \<le> maxn f) \<and>
         ((maxn f = maxn ?a \<and> maxx f = maxx ?a) \<or>
          (\<exists>b p ps m' X Y s1.
            reaches g ?a b \<and> queue b = p # ps \<and>
            explore g (maze_of b) p (rng_state b) = Some (Inr (Some (m', X, Y, s1))) \<and>
            eligible g m' X Y \<and> maxn b < pos_n p \<and> pos_n p = maxn f \<and> X = maxx f))"
    using f by (rule tracking)
  have z: "maxn ?a = 0" "maxx ?a = 0" by (simp_all add: walk_start_def)
  show ?thesis
    using mm bm rf tr unfolding z by blast
qed

lemma flip6_run:
  "case maze_mode flip6 (parked flip6) 1 1 1 of
     Some (Inr f) \<Rightarrow> maxn f = 2 \<and> maxx f = 3 | _ \<Rightarrow> False"
  by code_simp

theorem exit_tracking_witness:
  "0 < W flip6 \<and> 0 < nubs flip6 \<and> nubs flip6 \<le> W flip6 \<and> \<not> testmaze flip6 \<and>
   in_grid flip6 1 1 \<and> flip flip6 \<and> \<not> inside flip6 \<and> W flip6 sdiv nubs flip6 = 3 \<and>
   (\<exists>f. maze_mode flip6 (parked flip6) 1 1 1 = Some (Inr f) \<and>
        build_maze flip6 (parked flip6) 1 1 1 = Some (Inr (maze_of f, 3, Turn 3 6, rng_state f)) \<and>
        maxn f = 2 \<and> maxx f = 3 \<and>
        (\<exists>b p ps m' X Y s1.
           reaches flip6 (walk_start (parked flip6) 1 1 1) b \<and> queue b = p # ps \<and>
           explore flip6 (maze_of b) p (rng_state b) = Some (Inr (Some (m', X, Y, s1))) \<and>
           eligible flip6 m' X Y \<and> maxn b < pos_n p \<and> pos_n p = 2 \<and> X = 3))"
proof -
  have h: "0 < W flip6" "0 < nubs flip6" "nubs flip6 \<le> W flip6" "\<not> testmaze flip6"
    "in_grid flip6 1 1"
    by (simp_all add: flip6_def grid6_def in_grid_def)
  have k: "flip flip6" "\<not> inside flip6" "W flip6 sdiv nubs flip6 = 3" "W flip6 = 6"
    by (simp_all add: flip6_def grid6_def signed_divide_int_def)
  from exit_tracking [OF h, of "parked flip6" 1]
  obtain f where f: "maze_mode flip6 (parked flip6) 1 1 1 = Some (Inr f)"
    and b: "build_maze flip6 (parked flip6) 1 1 1 =
               Some (Inr (maze_of f, maxx f, Turn (maxx f) (W flip6), rng_state f))"
    and e: "(maxn f = 0 \<and> maxx f = 0) \<or>
              (\<exists>b p ps m' X Y s1.
                reaches flip6 (walk_start (parked flip6) 1 1 1) b \<and> queue b = p # ps \<and>
                explore flip6 (maze_of b) p (rng_state b) = Some (Inr (Some (m', X, Y, s1))) \<and>
                eligible flip6 m' X Y \<and> maxn b < pos_n p \<and> pos_n p = maxn f \<and> X = maxx f)"
    by blast
  have v: "maxn f = 2" "maxx f = 3" using flip6_run unfolding f by simp_all
  have "maze_mode flip6 (parked flip6) 1 1 1 = Some (Inr f) \<and>
        build_maze flip6 (parked flip6) 1 1 1 = Some (Inr (maze_of f, 3, Turn 3 6, rng_state f)) \<and>
        maxn f = 2 \<and> maxx f = 3 \<and>
        (\<exists>b p ps m' X Y s1.
           reaches flip6 (walk_start (parked flip6) 1 1 1) b \<and> queue b = p # ps \<and>
           explore flip6 (maze_of b) p (rng_state b) = Some (Inr (Some (m', X, Y, s1))) \<and>
           eligible flip6 m' X Y \<and> maxn b < pos_n p \<and> pos_n p = 2 \<and> X = 3)"
    using f b e k(4) unfolding v by simp
  then show ?thesis using h k by blast
qed

lemma ring3_run:
  "(case explore ring3 (parked ring3) (Pos 1 1 0) 1 of
      Some (Inr (Some (m', X, Y, s1))) \<Rightarrow>
        X = 2 \<and> Y = 1 \<and> test ring3 m' X (Y + 1) = Some FLAGI \<and> eligible ring3 m' X Y
    | _ \<Rightarrow> False) \<and>
   (case build_maze ring3 (parked ring3) 1 1 1 of
      Some (Inr (m, mxx, a, s)) \<Rightarrow>
        mxx = 0 \<and> a = Turn 0 3 \<and>
        map (\<lambda>x. m x 1) [0, 1, 2] = [FLAGR, FLAGL OR FLAGR, FLAGL]
    | _ \<Rightarrow> False)"
  by code_simp

lemma tri3_run:
  "(case explore tri3 (parked tri3) (Pos 1 1 0) 1 of
      Some (Inr (Some (m', X, Y, s1))) \<Rightarrow>
        X = 1 \<and> Y = 2 \<and> test tri3 m' X (Y + 1) = Some FLAGI \<and>
        X smod (W tri3 sdiv nubs tri3) = 0 \<and> eligible tri3 m' X Y
    | _ \<Rightarrow> False) \<and>
   (case build_maze tri3 (parked tri3) 1 1 1 of
      Some (Inr (m, mxx, a, s)) \<Rightarrow>
        mxx = 0 \<and> a = Turn 0 3 \<and>
        map (\<lambda>x. map (m x) [1, 2]) [0, 1, 2] = [[FLAGR, 0], [FLAGL OR FLAGU, FLAGD], [0, 0]]
    | _ \<Rightarrow> False)"
  by code_simp

lemma grid8_run:
  "case build_maze grid8 (parked grid8) 1 1 1 of
      Some (Inr (m, mxx, a, s)) \<Rightarrow>
        mxx = 3 \<and> a = Turn 3 8 \<and> mxx smod (W grid8 sdiv nubs grid8) = 3 \<and>
        map (\<lambda>x. m x 1) [0, 1, 2, 3, 4, 5, 6, 7] =
          [FLAGR, FLAGL OR FLAGR, FLAGL OR FLAGR, FLAGL, 0, 0, 0, 0]
    | _ \<Rightarrow> False"
  by code_simp

text \<open>
  The exit is not always the deepest reached cell below the top. On \<open>ring3\<close>
  (one nub, no \<open>flip\<close>: no restriction on the column under any reading) with
  the seed 1 the only move of the walk goes from the start \<open>(1, 1)\<close> to
  \<open>(2, 1)\<close>, a cell of depth 1 with an Invalid cell above. It is not recorded,
  since the depth of the node expanded is 0: \<open>maxx\<close> stays 0, the column of the
  park point, which the walk never enters, and the entry angle is that of
  column 0.

  The same happens where the column is restricted and the cell passes. On
  \<open>tri3\<close> (three nubs, \<^verbatim>\<open>W / nubs\<close> = 1, \<open>flip\<close> set, maze outside) with the
  seed 1 the only move goes from \<open>(1, 1)\<close> up to \<open>(1, 2)\<close>, a cell of depth 1
  below the Invalid row in a column that is a multiple of \<^verbatim>\<open>W / nubs\<close>; \<open>maxx\<close>
  stays 0.

  Nor is the column restricted whenever there are several nubs. On \<open>grid8\<close>
  (two nubs, \<^verbatim>\<open>W / nubs\<close> = 4, no \<open>flip\<close>) with the seed 1 the walk goes from
  \<open>(1, 1)\<close> to \<open>(2, 1)\<close> and on to \<open>(3, 1)\<close>, and the exit is column 3.
\<close>

theorem exit_tracking_counterexample:
  "nubs ring3 = 1 \<and> \<not> flip ring3 \<and>
   park ring3 (clear_band ring3) = Inr (parked ring3, 1, 1) \<and>
   (case explore ring3 (parked ring3) (Pos 1 1 0) 1 of
      Some (Inr (Some (m', X, Y, s1))) \<Rightarrow>
        X = 2 \<and> Y = 1 \<and> test ring3 m' X (Y + 1) = Some FLAGI \<and> eligible ring3 m' X Y
    | _ \<Rightarrow> False) \<and>
   (case walk_maze ring3 1 of
      Some (Inr (m, mxx, a, s)) \<Rightarrow>
        mxx = 0 \<and> a = Turn 0 3 \<and>
        map (\<lambda>x. m x 1) [0, 1, 2] = [FLAGR, FLAGL OR FLAGR, FLAGL]
    | _ \<Rightarrow> False) \<and>
   flip tri3 \<and> \<not> inside tri3 \<and> nubs tri3 = 3 \<and> W tri3 sdiv nubs tri3 = 1 \<and>
   (case explore tri3 (parked tri3) (Pos 1 1 0) 1 of
      Some (Inr (Some (m', X, Y, s1))) \<Rightarrow>
        X = 1 \<and> Y = 2 \<and> test tri3 m' X (Y + 1) = Some FLAGI \<and>
        X smod (W tri3 sdiv nubs tri3) = 0 \<and> eligible tri3 m' X Y
    | _ \<Rightarrow> False) \<and>
   (case walk_maze tri3 1 of
      Some (Inr (m, mxx, a, s)) \<Rightarrow>
        mxx = 0 \<and> a = Turn 0 3 \<and>
        map (\<lambda>x. map (m x) [1, 2]) [0, 1, 2] = [[FLAGR, 0], [FLAGL OR FLAGU, FLAGD], [0, 0]]
    | _ \<Rightarrow> False) \<and>
   \<not> flip grid8 \<and> nubs grid8 = 2 \<and> W grid8 sdiv nubs grid8 = 4 \<and>
   (case walk_maze grid8 1 of
      Some (Inr (m, mxx, a, s)) \<Rightarrow>
        mxx = 3 \<and> a = Turn 3 8 \<and> mxx smod (W grid8 sdiv nubs grid8) = 3 \<and>
        map (\<lambda>x. m x 1) [0, 1, 2, 3, 4, 5, 6, 7] =
          [FLAGR, FLAGL OR FLAGR, FLAGL OR FLAGR, FLAGL, 0, 0, 0, 0]
    | _ \<Rightarrow> False)"
proof -
  have t: "\<not> parkvertical ring3" "nubs ring3 \<noteq> 0"
    "\<not> (W ring3 sdiv nubs ring3 > 3 \<and> H ring3 > helix ring3 + 3)"
    "1 < W ring3" "0 \<le> helix ring3 + 1" "helix ring3 + 1 < H ring3"
    by (simp_all add: ring3_def grid6_def signed_divide_int_def)
  have e: "\<not> parkvertical grid8" "nubs grid8 \<noteq> 0"
    "\<not> (W grid8 sdiv nubs grid8 > 3 \<and> H grid8 > helix grid8 + 3)"
    "1 < W grid8" "0 \<le> helix grid8 + 1" "helix grid8 + 1 < H grid8"
    by (simp_all add: grid8_def grid6_def signed_divide_int_def)
  have u: "\<not> parkvertical tri3" "nubs tri3 \<noteq> 0"
    "\<not> (W tri3 sdiv nubs tri3 > 3 \<and> H tri3 > helix tri3 + 3)"
    "1 < W tri3" "0 \<le> helix tri3 + 1" "helix tri3 + 1 < H tri3"
    by (simp_all add: tri3_def grid6_def signed_divide_int_def)
  have ht: "helix ring3 + 1 = 1" and he: "helix grid8 + 1 = 1" and hu: "helix tri3 + 1 = 1"
    by (simp_all add: ring3_def grid8_def tri3_def grid6_def)
  have d: "flip tri3" "\<not> inside tri3" "nubs tri3 = 3" "W tri3 sdiv nubs tri3 = 1"
    by (simp_all add: tri3_def grid6_def signed_divide_int_def)
  have w3: "walk_maze tri3 1 = build_maze tri3 (parked tri3) 1 1 1"
    using walk_maze_plain [OF u, of 1] unfolding hu by simp
  have x3: "case explore tri3 (parked tri3) (Pos 1 1 0) 1 of
      Some (Inr (Some (m', X, Y, s1))) \<Rightarrow>
        X = 1 \<and> Y = 2 \<and> test tri3 m' X (Y + 1) = Some FLAGI \<and>
        X smod (W tri3 sdiv nubs tri3) = 0 \<and> eligible tri3 m' X Y
    | _ \<Rightarrow> False"
    and c3: "case walk_maze tri3 1 of
      Some (Inr (m, mxx, a, s)) \<Rightarrow>
        mxx = 0 \<and> a = Turn 0 3 \<and>
        map (\<lambda>x. map (m x) [1, 2]) [0, 1, 2] = [[FLAGR, 0], [FLAGL OR FLAGU, FLAGD], [0, 0]]
    | _ \<Rightarrow> False"
    unfolding w3 using tri3_run by simp_all
  have a: "nubs ring3 = 1" "\<not> flip ring3"
    by (simp_all add: ring3_def grid6_def)
  have b: "\<not> flip grid8" "nubs grid8 = 2" "W grid8 sdiv nubs grid8 = 4"
    by (simp_all add: grid8_def grid6_def signed_divide_int_def)
  have p1: "park ring3 (clear_band ring3) = Inr (parked ring3, 1, 1)"
    and w1: "walk_maze ring3 1 = build_maze ring3 (parked ring3) 1 1 1"
    using walk_maze_plain [OF t, of 1] unfolding ht by simp_all
  have w2: "walk_maze grid8 1 = build_maze grid8 (parked grid8) 1 1 1"
    using walk_maze_plain [OF e, of 1] unfolding he by simp
  have x1: "case explore ring3 (parked ring3) (Pos 1 1 0) 1 of
      Some (Inr (Some (m', X, Y, s1))) \<Rightarrow>
        X = 2 \<and> Y = 1 \<and> test ring3 m' X (Y + 1) = Some FLAGI \<and> eligible ring3 m' X Y
    | _ \<Rightarrow> False"
    and c1: "case walk_maze ring3 1 of
      Some (Inr (m, mxx, a, s)) \<Rightarrow>
        mxx = 0 \<and> a = Turn 0 3 \<and>
        map (\<lambda>x. m x 1) [0, 1, 2] = [FLAGR, FLAGL OR FLAGR, FLAGL]
    | _ \<Rightarrow> False"
    unfolding w1 using ring3_run by simp_all
  have c2: "case walk_maze grid8 1 of
      Some (Inr (m, mxx, a, s)) \<Rightarrow>
        mxx = 3 \<and> a = Turn 3 8 \<and> mxx smod (W grid8 sdiv nubs grid8) = 3 \<and>
        map (\<lambda>x. m x 1) [0, 1, 2, 3, 4, 5, 6, 7] =
          [FLAGR, FLAGL OR FLAGR, FLAGL OR FLAGR, FLAGL, 0, 0, 0, 0]
    | _ \<Rightarrow> False"
    unfolding w2 using grid8_run by simp
  show ?thesis
    by (intro conjI) (fact a b d p1 x1 c1 x3 c3 c2)+
qed

end
